theory Spec2Isabelle
  imports Main "HOL-Library.Word" "HOL-Library.Multiset"
begin

unbundle bit_operations_syntax

section \<open>Data model\<close>

text \<open>
  A \<open>Uint8Array\<close> is a list of 8-bit words. A JavaScript string is a sequence of UTF-16
  code units, a list of 16-bit words. Sizes and offsets of a layout are natural numbers.
\<close>

type_synonym byte = "8 word"
type_synonym bytes = "byte list"
type_synonym jsstring = "16 word list"

text \<open>
  The source throws \<open>Error\<close> objects told apart by their message; \<open>RangeError\<close> is what
  \<open>TypedArray.prototype.set\<close> throws when the source does not fit the target.
\<close>

datatype error =
    TooSmall
  | InvalidFile
  | InvalidName
  | InvalidId
  | DuplicateKey
  | NotFound
  | RangeError

text \<open>\<open>interface PESConfig\<close> of \<open>parser_config.ts\<close>.\<close>

record PESConfig =
  COMMENTARY_PREFIX :: jsstring
  COMMENTARY_START_OFFSET :: nat
  COMMENTARY_NAME_LENGTH :: nat
  PLAYER_NAME_OFFSET :: nat
  PLAYER_NAME_LENGTH :: nat
  RECORD_SIZE :: nat

text \<open>\<open>CommentaryRecord\<close>, \<open>CommentaryUpsert\<close> and \<open>CommentaryMetadata\<close> of \<open>types.d.ts\<close>.\<close>

record CommentaryRecord =
  commentaryName :: jsstring
  playerName :: jsstring

record CommentaryUpsert =
  commentaryId :: int
  upsertName :: jsstring

record CommentaryMetadata =
  first :: bytes
  second :: bytes

text \<open>The fields of a \<open>PESCommentaryListParser\<close> instance.\<close>

record parser =
  pesConfig :: PESConfig
  metadata :: CommentaryMetadata
  playerList :: "CommentaryRecord list"

text \<open>An ASCII literal as a JavaScript string.\<close>

definition js :: "string \<Rightarrow> jsstring" where
  "js s = map (\<lambda>c. word_of_nat (of_char c)) s"

definition PES2021Config :: PESConfig where
  "PES2021Config =
     \<lparr>COMMENTARY_PREFIX = js ''EN_A1_P0_R'', COMMENTARY_START_OFFSET = 144,
      COMMENTARY_NAME_LENGTH = 16, PLAYER_NAME_OFFSET = 16, PLAYER_NAME_LENGTH = 64,
      RECORD_SIZE = 96\<rparr>"

definition PES2017Config :: PESConfig where
  "PES2017Config =
     \<lparr>COMMENTARY_PREFIX = js ''E_A1_P0_R'', COMMENTARY_START_OFFSET = 144,
      COMMENTARY_NAME_LENGTH = 16, PLAYER_NAME_OFFSET = 0, PLAYER_NAME_LENGTH = 64,
      RECORD_SIZE = 80\<rparr>"

text \<open>Exceptions as values: the first error ends the computation.\<close>

definition bindE :: "error + 'a \<Rightarrow> ('a \<Rightarrow> error + 'b) \<Rightarrow> error + 'b" where
  "bindE m f = (case m of Inl e \<Rightarrow> Inl e | Inr v \<Rightarrow> f v)"

section \<open>Platform functions: typed arrays\<close>

text \<open>\<open>a.slice(s, e)\<close> for \<open>0 \<le> s\<close>, \<open>0 \<le> e\<close>: clamped to the array, empty when \<open>e \<le> s\<close>.\<close>

definition slice :: "'a list \<Rightarrow> nat \<Rightarrow> nat \<Rightarrow> 'a list" where
  "slice xs s e = take (e - s) (drop s xs)"

text \<open>
  \<open>target.set(source, offset)\<close>: throws \<open>RangeError\<close> when
  \<open>source.length + offset > target.length\<close>, else overwrites
  \<open>target[offset .. offset + source.length)\<close>.
\<close>

definition set_at :: "bytes \<Rightarrow> bytes \<Rightarrow> nat \<Rightarrow> error + bytes" where
  "set_at target source off =
     (if length source + off > length target then Inl RangeError
      else Inr (take off target @ source @ drop (off + length source) target))"

section \<open>Platform functions: text\<close>

subsection \<open>\<open>TextDecoder("utf-8").decode\<close>\<close>

text \<open>
  The UTF-8 decoder of the WHATWG Encoding standard, a state machine over the bytes:
  the code point being assembled, the bytes seen and needed, and the bounds of the
  next continuation byte. A malformed sequence gives U+FFFD, and the byte that ended
  it is read again from the initial state.
\<close>

record utf8_state =
  code_point :: nat
  bytes_seen :: nat
  bytes_needed :: nat
  lower_boundary :: nat
  upper_boundary :: nat

definition utf8_init :: utf8_state where
  "utf8_init = \<lparr>code_point = 0, bytes_seen = 0, bytes_needed = 0,
                lower_boundary = 0x80, upper_boundary = 0xBF\<rparr>"

text \<open>A byte read when no sequence is open (\<open>bytes needed\<close> is 0).\<close>

definition utf8_lead :: "nat \<Rightarrow> utf8_state \<times> nat list" where
  "utf8_lead n =
     (if n \<le> 0x7F then (utf8_init, [n])
      else if 0xC2 \<le> n \<and> n \<le> 0xDF then
        (utf8_init\<lparr>bytes_needed := 1, code_point := n mod 32\<rparr>, [])
      else if 0xE0 \<le> n \<and> n \<le> 0xEF then
        (utf8_init\<lparr>bytes_needed := 2, code_point := n mod 16,
                   lower_boundary := (if n = 0xE0 then 0xA0 else 0x80),
                   upper_boundary := (if n = 0xED then 0x9F else 0xBF)\<rparr>, [])
      else if 0xF0 \<le> n \<and> n \<le> 0xF4 then
        (utf8_init\<lparr>bytes_needed := 3, code_point := n mod 8,
                   lower_boundary := (if n = 0xF0 then 0x90 else 0x80),
                   upper_boundary := (if n = 0xF4 then 0x8F else 0xBF)\<rparr>, [])
      else (utf8_init, [0xFFFD]))"

definition utf8_step :: "utf8_state \<Rightarrow> nat \<Rightarrow> utf8_state \<times> nat list" where
  "utf8_step st n =
     (if bytes_needed st = 0 then utf8_lead n
      else if n < lower_boundary st \<or> upper_boundary st < n then
        (let (st', out) = utf8_lead n in (st', 0xFFFD # out))
      else
        (let cp = code_point st * 64 + n mod 64; seen = bytes_seen st + 1
         in if seen \<noteq> bytes_needed st then
              (st\<lparr>code_point := cp, bytes_seen := seen,
                  lower_boundary := 0x80, upper_boundary := 0xBF\<rparr>, [])
            else (utf8_init, [cp])))"

fun utf8_run :: "utf8_state \<Rightarrow> bytes \<Rightarrow> nat list" where
  "utf8_run st [] = (if bytes_needed st \<noteq> 0 then [0xFFFD] else [])"
| "utf8_run st (b # bs) = (let (st', out) = utf8_step st (unat b) in out @ utf8_run st' bs)"

text \<open>A code point as UTF-16 code units: a surrogate pair above the basic plane.\<close>

definition utf16_units :: "nat \<Rightarrow> jsstring" where
  "utf16_units cp =
     (if cp < 0x10000 then [word_of_nat cp]
      else [word_of_nat (0xD800 + (cp - 0x10000) div 1024),
            word_of_nat (0xDC00 + (cp - 0x10000) mod 1024)])"

text \<open>
  \<open>decode\<close> with the default \<open>ignoreBOM = false\<close> and no \<open>stream\<close> option: every call
  starts afresh, and a leading U+FEFF of the output is dropped.
\<close>

definition strip_bom :: "nat list \<Rightarrow> nat list" where
  "strip_bom cps = (case cps of [] \<Rightarrow> [] | c # rest \<Rightarrow> if c = 0xFEFF then rest else cps)"

definition utf8_decode :: "bytes \<Rightarrow> jsstring" where
  "utf8_decode buffer = concat (map utf16_units (strip_bom (utf8_run utf8_init buffer)))"

subsection \<open>\<open>TextEncoder.encode\<close>\<close>

text \<open>
  The string is read as scalar values (a surrogate pair is one code point, a lone
  surrogate becomes U+FFFD), each written in UTF-8.
\<close>

definition is_high_surrogate :: "nat \<Rightarrow> bool" where
  "is_high_surrogate n = (0xD800 \<le> n \<and> n \<le> 0xDBFF)"

definition is_low_surrogate :: "nat \<Rightarrow> bool" where
  "is_low_surrogate n = (0xDC00 \<le> n \<and> n \<le> 0xDFFF)"

fun scalar_values :: "jsstring \<Rightarrow> nat list" where
  "scalar_values [] = []"
| "scalar_values [u] =
     (if is_high_surrogate (unat u) \<or> is_low_surrogate (unat u) then [0xFFFD] else [unat u])"
| "scalar_values (u # v # rest) =
     (if is_high_surrogate (unat u) then
        (if is_low_surrogate (unat v)
         then (0x10000 + (unat u - 0xD800) * 1024 + (unat v - 0xDC00)) # scalar_values rest
         else 0xFFFD # scalar_values (v # rest))
      else if is_low_surrogate (unat u) then 0xFFFD # scalar_values (v # rest)
      else unat u # scalar_values (v # rest))"

definition utf8_bytes :: "nat \<Rightarrow> bytes" where
  "utf8_bytes cp =
     map word_of_nat
       (if cp < 0x80 then [cp]
        else if cp < 0x800 then [0xC0 + cp div 64, 0x80 + cp mod 64]
        else if cp < 0x10000 then
          [0xE0 + cp div 4096, 0x80 + cp div 64 mod 64, 0x80 + cp mod 64]
        else [0xF0 + cp div 262144, 0x80 + cp div 4096 mod 64,
              0x80 + cp div 64 mod 64, 0x80 + cp mod 64])"

definition utf8_encode :: "jsstring \<Rightarrow> bytes" where
  "utf8_encode s = concat (map utf8_bytes (scalar_values s))"

subsection \<open>Strings\<close>

text \<open>\<open>WhiteSpace\<close> and \<open>LineTerminator\<close> of ECMAScript, which \<open>trim\<close> removes.\<close>

definition is_line_terminator :: "16 word \<Rightarrow> bool" where
  "is_line_terminator u = (u = 0x0A \<or> u = 0x0D \<or> u = 0x2028 \<or> u = 0x2029)"

definition is_white_space :: "16 word \<Rightarrow> bool" where
  "is_white_space u =
     (u = 0x09 \<or> u = 0x0B \<or> u = 0x0C \<or> u = 0x20 \<or> u = 0xA0 \<or> u = 0x1680
      \<or> (0x2000 \<le> u \<and> u \<le> 0x200A) \<or> u = 0x202F \<or> u = 0x205F \<or> u = 0x3000
      \<or> u = 0xFEFF \<or> is_line_terminator u)"

definition trim :: "jsstring \<Rightarrow> jsstring" where
  "trim s = rev (dropWhile is_white_space (rev (dropWhile is_white_space s)))"

text \<open>
  \<open>s.replace(/\0.*$/, "")\<close>. The pattern has no flag: \<open>.\<close> matches any code unit but a
  line terminator and \<open>$\<close> only the end of the input. The match is the leftmost one, so
  it starts at the first NUL that no line terminator follows, and runs to the end.
\<close>

fun replace_nul_tail :: "jsstring \<Rightarrow> jsstring" where
  "replace_nul_tail [] = []"
| "replace_nul_tail (u # us) =
     (if u = 0 \<and> list_all (\<lambda>v. \<not> is_line_terminator v) us then []
      else u # replace_nul_tail us)"

text \<open>\<open>s.charAt(0)\<close>: the first code unit as a string, or the empty string.\<close>

definition charAt0 :: "jsstring \<Rightarrow> jsstring" where
  "charAt0 s = take 1 s"

text \<open>
  \<open>localeCompare(_, "en", {sensitivity: "base"})\<close> and \<open>toUpperCase\<close> rest on the
  platform's collation and case tables: they are parameters of the model.
\<close>

record platform =
  localeCompare :: "jsstring \<Rightarrow> jsstring \<Rightarrow> int"
  toUpperCase :: "jsstring \<Rightarrow> jsstring"

section \<open>\<open>utils.ts\<close>\<close>

definition cleanString :: "bytes \<Rightarrow> jsstring" where
  "cleanString buffer = trim (replace_nul_tail (utf8_decode buffer))"

definition nth_opt :: "'a list \<Rightarrow> nat \<Rightarrow> 'a option" where
  "nth_opt xs i = (if i < length xs then Some (xs ! i) else None)"

definition isBinaryValid :: "bytes \<Rightarrow> bool" where
  "isBinaryValid buffer =
     (nth_opt buffer 0 = Some 83 \<and> nth_opt buffer 1 = Some 69 \<and>
      nth_opt buffer 2 = Some 80 \<and> nth_opt buffer 3 = Some 68 \<and>
      list_all (\<lambda>byte. byte = 0) (slice buffer 24 36))"

text \<open>\<open>DataView.setUint32(0, num, true)\<close>: the number modulo \<open>2^32\<close>, low byte first.\<close>

definition decimalToBytes :: "nat \<Rightarrow> bytes" where
  "decimalToBytes num =
     (let w = (word_of_nat num :: 32 word)
      in [ucast w, ucast (drop_bit 8 w), ucast (drop_bit 16 w), ucast (drop_bit 24 w)])"

text \<open>\<open>String.fromCharCode\<close> of one code unit.\<close>

definition fromCharCode :: "nat \<Rightarrow> jsstring" where
  "fromCharCode n = [word_of_nat n]"

text \<open>
  \<open>Array.prototype.sort\<close> with a comparator is stable (ECMAScript 2019): for a consistent
  comparator, as \<open>localeCompare\<close> is, its result is the one of insertion sort.
\<close>

fun insort_by :: "('a \<Rightarrow> 'a \<Rightarrow> int) \<Rightarrow> 'a \<Rightarrow> 'a list \<Rightarrow> 'a list" where
  "insort_by cmp x [] = [x]"
| "insort_by cmp x (y # ys) = (if cmp x y \<le> 0 then x # y # ys else y # insort_by cmp x ys)"

definition array_sort :: "('a \<Rightarrow> 'a \<Rightarrow> int) \<Rightarrow> 'a list \<Rightarrow> 'a list" where
  "array_sort cmp xs = foldr (insort_by cmp) xs []"

text \<open>
  The \<open>counts\<close> object: its keys in insertion order, which is the order of
  \<open>Object.values\<close>. \<open>counts[k]++\<close> on a key that is present keeps its place.
  \<open>counts[firstChar] !== undefined\<close> holds for the keys of the object only: the names
  that \<open>Object.prototype\<close> adds all have a lower-case letter, which no uppercased string has.
\<close>

type_synonym counts = "(jsstring \<times> nat) list"

fun increment :: "jsstring \<Rightarrow> counts \<Rightarrow> counts" where
  "increment k [] = []"
| "increment k ((k', c) # rest) =
     (if k = k' then (k', c + 1) # rest else (k', c) # increment k rest)"

definition count_player :: "platform \<Rightarrow> CommentaryRecord \<Rightarrow> counts \<Rightarrow> counts" where
  "count_player pf player counts =
     (let firstChar = toUpperCase pf (charAt0 (playerName player))
      in if map_of counts firstChar \<noteq> None then increment firstChar counts else counts)"

definition sortAndCountPlayers ::
  "platform \<Rightarrow> CommentaryRecord list \<Rightarrow> CommentaryRecord list \<times> counts" where
  "sortAndCountPlayers pf players =
     (let sorted = array_sort (\<lambda>a b. localeCompare pf (playerName a) (playerName b)) players;
          counts = map (\<lambda>i. (fromCharCode (65 + i), 0)) [0..<26]
      in (sorted, fold (count_player pf) sorted counts))"

text \<open>
  \<open>Number.prototype.toString\<close> of an integer, in decimal, and \<open>String.prototype.padStart\<close>
  with a one-character filler.
\<close>

fun digits_of :: "nat \<Rightarrow> jsstring" where
  "digits_of n =
     (if n < 10 then [word_of_nat (48 + n)]
      else digits_of (n div 10) @ [word_of_nat (48 + n mod 10)])"

declare digits_of.simps [simp del]

definition number_toString :: "int \<Rightarrow> jsstring" where
  "number_toString n = (if n < 0 then 45 # digits_of (nat (- n)) else digits_of (nat n))"

definition padStart :: "jsstring \<Rightarrow> nat \<Rightarrow> 16 word \<Rightarrow> jsstring" where
  "padStart s n c = replicate (n - length s) c @ s"

text \<open>
  Modelled from the spec: \<open>formatTo6String\<close> is declared in \<open>utils.d.ts\<close> and its body is
  not in the repository. "Formats a number to a 6-digit string with leading zeros.
  Takes the last 6 digits if the number is longer than 6 digits": the decimal
  numeral, padded with zeros at the front to 6 characters, cut to its last 6.
\<close>

definition formatTo6String :: "int \<Rightarrow> jsstring" where
  "formatTo6String num = (let s = padStart (number_toString num) 6 48 in drop (length s - 6) s)"

section \<open>\<open>parser.ts\<close>: reading a file\<close>

definition readString :: "bytes \<Rightarrow> nat \<Rightarrow> nat \<Rightarrow> jsstring" where
  "readString buffer offset len = cleanString (slice buffer offset (offset + len))"

text \<open>The record that one round of the loop of \<open>parse\<close> reads at \<open>pointer\<close>.\<close>

definition read_record :: "PESConfig \<Rightarrow> bytes \<Rightarrow> nat \<Rightarrow> CommentaryRecord" where
  "read_record cfg fileBuffer pointer =
     \<lparr>commentaryName = readString fileBuffer pointer (COMMENTARY_NAME_LENGTH cfg),
      playerName =
        readString fileBuffer
          (pointer + PLAYER_NAME_OFFSET cfg + COMMENTARY_NAME_LENGTH cfg)
          (PLAYER_NAME_LENGTH cfg)\<rparr>"

text \<open>
  The \<open>while\<close> loop of \<open>parse\<close>. It does not end when \<open>RECORD_SIZE\<close> is 0: \<open>None\<close> is a
  call that does not return.
\<close>

partial_function (option) parse_loop ::
  "PESConfig \<Rightarrow> bytes \<Rightarrow> nat \<Rightarrow> CommentaryRecord list \<Rightarrow> CommentaryRecord list option" where
  "parse_loop cfg fileBuffer pointer players =
     (if pointer + RECORD_SIZE cfg \<le> length fileBuffer then
        parse_loop cfg fileBuffer (pointer + RECORD_SIZE cfg)
          (players @ [read_record cfg fileBuffer pointer])
      else Some players)"

declare parse_loop.simps [code]

definition parse :: "bytes \<Rightarrow> PESConfig \<Rightarrow> (error + parser) option" where
  "parse fileBuffer cfg =
     (if length fileBuffer < COMMENTARY_START_OFFSET cfg then Some (Inl TooSmall)
      else if \<not> isBinaryValid fileBuffer then Some (Inl InvalidFile)
      else
        map_option
          (\<lambda>players.
             Inr \<lparr>pesConfig = cfg,
                  metadata = \<lparr>first = slice fileBuffer 0 16, second = slice fileBuffer 20 36\<rparr>,
                  playerList = players\<rparr>)
          (parse_loop cfg fileBuffer (COMMENTARY_START_OFFSET cfg) []))"

section \<open>\<open>parser.ts\<close>: writing a file\<close>

text \<open>The \<open>forEach\<close> over \<open>Object.values(counts)\<close>, with \<open>sum\<close> (here \<open>running\<close>) and \<open>alphabetPointer\<close>.\<close>

fun write_index :: "nat list \<Rightarrow> nat \<Rightarrow> nat \<Rightarrow> bytes \<Rightarrow> error + bytes" where
  "write_index [] running alphabetPointer intBuffer = Inr intBuffer"
| "write_index (cnt # rest) running alphabetPointer intBuffer =
     bindE (set_at intBuffer (decimalToBytes (running + cnt)) alphabetPointer)
       (write_index rest (running + cnt) (alphabetPointer + 4))"

text \<open>The \<open>forEach\<close> over \<open>sorted\<close>, with \<open>pointer\<close>.\<close>

fun write_records :: "PESConfig \<Rightarrow> CommentaryRecord list \<Rightarrow> nat \<Rightarrow> bytes \<Rightarrow> error + bytes" where
  "write_records cfg [] pointer intBuffer = Inr intBuffer"
| "write_records cfg (v # rest) pointer intBuffer =
     bindE (set_at intBuffer
              (slice (utf8_encode (commentaryName v)) 0 (COMMENTARY_NAME_LENGTH cfg)) pointer)
       (\<lambda>b1.
          bindE (set_at b1
                   (slice (utf8_encode (playerName v)) 0
                      (PLAYER_NAME_OFFSET cfg + PLAYER_NAME_LENGTH cfg))
                   (pointer + COMMENTARY_NAME_LENGTH cfg))
            (write_records cfg rest (pointer + RECORD_SIZE cfg)))"

text \<open>The three writes under \<open>// Write header\<close> and the two under \<open>// Write total counts\<close>.\<close>

definition write_header :: "CommentaryMetadata \<Rightarrow> nat \<Rightarrow> bytes \<Rightarrow> error + bytes" where
  "write_header meta n intBuffer =
     bindE (set_at intBuffer (first meta) 0)
       (\<lambda>b1. bindE (set_at b1 (decimalToBytes n) 16) (\<lambda>b2. set_at b2 (second meta) 20))"

definition write_totals :: "nat \<Rightarrow> bytes \<Rightarrow> error + bytes" where
  "write_totals n intBuffer =
     bindE (set_at intBuffer (decimalToBytes n) 136) (\<lambda>b. set_at b (decimalToBytes n) 140)"

text \<open>
  \<open>save\<close>: the zeroed buffer, the header, the index, the total counts, the records. The
  call throws where a \<open>set\<close> does.
\<close>

definition save :: "platform \<Rightarrow> parser \<Rightarrow> error + bytes" where
  "save pf this =
     (let cfg = pesConfig this;
          n = length (playerList this);
          buffer = replicate (COMMENTARY_START_OFFSET cfg + n * RECORD_SIZE cfg) 0
      in bindE (write_header (metadata this) n buffer)
           (\<lambda>b1. let (sorted, counts) = sortAndCountPlayers pf (playerList this)
                 in bindE (write_index (map snd counts) 0 36 b1)
                      (\<lambda>b2. bindE (write_totals n b2)
                         (write_records cfg sorted (COMMENTARY_START_OFFSET cfg)))))"

section \<open>\<open>parser.ts\<close>: editing the list\<close>

text \<open>\<open>Array.prototype.findIndex\<close>: the first index that satisfies the test, or \<open>-1\<close>.\<close>

fun findIndex :: "('a \<Rightarrow> bool) \<Rightarrow> 'a list \<Rightarrow> int" where
  "findIndex P [] = - 1"
| "findIndex P (x # xs) =
     (if P x then 0 else (let i = findIndex P xs in if i = - 1 then - 1 else i + 1))"

text \<open>
  A method returns its outcome and the instance as the call leaves it, also when it
  throws. The methods of the build under \<open>dist/\<close>, which take a numeric id:
\<close>

definition buildCommentaryName :: "parser \<Rightarrow> int \<Rightarrow> jsstring" where
  "buildCommentaryName this cid =
     COMMENTARY_PREFIX (pesConfig this) @ formatTo6String cid"


text \<open>The part of \<open>updatePlayer\<close> and \<open>deletePlayer\<close> that both builds share.\<close>

definition update_by_name :: "parser \<Rightarrow> jsstring \<Rightarrow> jsstring \<Rightarrow> (error + unit) \<times> parser" where
  "update_by_name this name newName =
     (let index = findIndex (\<lambda>player. commentaryName player = name) (playerList this)
      in if index = - 1 then (Inl NotFound, this)
         else if nat index < length (playerList this) then
           (Inr (),
            this\<lparr>playerList :=
                   (playerList this)[nat index :=
                      (playerList this ! nat index)\<lparr>playerName := newName\<rparr>]\<rparr>)
         else (Inr (), this))"

definition delete_by_name :: "parser \<Rightarrow> jsstring \<Rightarrow> (error + unit) \<times> parser" where
  "delete_by_name this name =
     (let index = findIndex (\<lambda>player. commentaryName player = name) (playerList this)
      in if index = - 1 then (Inl NotFound, this)
         else (Inr (),
               this\<lparr>playerList :=
                      take (nat index) (playerList this) @
                      drop (nat index + 1) (playerList this)\<rparr>))"

definition updatePlayer :: "parser \<Rightarrow> CommentaryUpsert \<Rightarrow> (error + unit) \<times> parser" where
  "updatePlayer this data =
     update_by_name this (buildCommentaryName this (commentaryId data)) (upsertName data)"

definition deletePlayer :: "parser \<Rightarrow> int \<Rightarrow> (error + unit) \<times> parser" where
  "deletePlayer this cid = delete_by_name this (buildCommentaryName this cid)"

text \<open>The methods of \<open>src/parser.ts\<close>, which take the id or the commentary name as a string:\<close>

definition createPlayer_ts :: "parser \<Rightarrow> jsstring \<Rightarrow> jsstring \<Rightarrow> (error + unit) \<times> parser" where
  "createPlayer_ts this cid name =
     (Inr (),
      this\<lparr>playerList := playerList this @
             [\<lparr>commentaryName = COMMENTARY_PREFIX (pesConfig this) @ cid,
               playerName = name\<rparr>]\<rparr>)"

definition updatePlayer_ts :: "parser \<Rightarrow> jsstring \<Rightarrow> jsstring \<Rightarrow> (error + unit) \<times> parser" where
  "updatePlayer_ts this name newName = update_by_name this name newName"

definition deletePlayer_ts :: "parser \<Rightarrow> jsstring \<Rightarrow> (error + unit) \<times> parser" where
  "deletePlayer_ts this name = delete_by_name this name"

section \<open>Reference definitions\<close>

text \<open>
  What the specification's words say, stated on their own, to compare the code with:
  the \<open>k\<close>-digit zero-padded decimal numeral of a number (of its last \<open>k\<close> digits),
  renaming the first record that has a key, and removing it.
\<close>

fun zero_padded :: "nat \<Rightarrow> nat \<Rightarrow> jsstring" where
  "zero_padded 0 n = []"
| "zero_padded (Suc k) n = zero_padded k (n div 10) @ [word_of_nat (48 + n mod 10)]"

fun rename_first :: "jsstring \<Rightarrow> jsstring \<Rightarrow> CommentaryRecord list \<Rightarrow> CommentaryRecord list" where
  "rename_first name newName [] = []"
| "rename_first name newName (r # rs) =
     (if commentaryName r = name then r\<lparr>playerName := newName\<rparr> # rs
      else r # rename_first name newName rs)"

fun remove_first :: "jsstring \<Rightarrow> CommentaryRecord list \<Rightarrow> CommentaryRecord list" where
  "remove_first name [] = []"
| "remove_first name (r # rs) =
     (if commentaryName r = name then rs else r # remove_first name rs)"

text \<open>
  The decode rule as the specification words it: the UTF-8 decoding, cut at the first
  NUL, then trimmed.
\<close>

definition cleanString_spec :: "bytes \<Rightarrow> jsstring" where
  "cleanString_spec buffer = trim (takeWhile (\<lambda>u. u \<noteq> 0) (utf8_decode buffer))"

text \<open>A parser instance with two records on the PES 2021 layout, for the examples.\<close>

definition example_parser :: parser where
  "example_parser =
     \<lparr>pesConfig = PES2021Config,
      metadata = \<lparr>first = [83, 69, 80, 68] @ replicate 12 0, second = replicate 16 0\<rparr>,
      playerList =
        [\<lparr>commentaryName = js ''EN_A1_P0_R000001'', playerName = js ''Ana''\<rparr>,
         \<lparr>commentaryName = js ''EN_A1_P0_R000002'', playerName = js ''Bob''\<rparr>]\<rparr>"

text \<open>
  The composite that the round trip is about: \<open>save\<close>, then \<open>parse\<close> of its output with the
  instance's own layout.
\<close>

definition save_then_parse :: "platform \<Rightarrow> parser \<Rightarrow> (error + parser) option" where
  "save_then_parse pf this =
     (case save pf this of
        Inl e \<Rightarrow> Some (Inl e)
      | Inr buffer \<Rightarrow> parse buffer (pesConfig this))"

text \<open>
  The records that a file holds: one per full stride from \<open>COMMENTARY_START_OFFSET\<close>, in
  file order.
\<close>

definition records_in_file :: "PESConfig \<Rightarrow> bytes \<Rightarrow> CommentaryRecord list" where
  "records_in_file cfg buf =
     map (\<lambda>i. read_record cfg buf (COMMENTARY_START_OFFSET cfg + i * RECORD_SIZE cfg))
       [0..<(length buf - COMMENTARY_START_OFFSET cfg) div RECORD_SIZE cfg]"

text \<open>
  The file format of the specification's table: the 144 bytes of the header (the two
  metadata spans, the record count, 25 cumulative counts, the two total counts) and a
  record, its key field and its name bytes zero-padded to the stride.
\<close>

definition running_sums :: "nat \<Rightarrow> nat list \<Rightarrow> nat list" where
  "running_sums start cs = map (\<lambda>i. start + sum_list (take (Suc i) cs)) [0..<length cs]"

definition header_bytes :: "CommentaryMetadata \<Rightarrow> nat \<Rightarrow> nat list \<Rightarrow> bytes" where
  "header_bytes meta n cs =
     first meta @ decimalToBytes n @ second meta @
     concat (map decimalToBytes (take 25 (running_sums 0 cs))) @
     decimalToBytes n @ decimalToBytes n"

definition record_bytes :: "PESConfig \<Rightarrow> CommentaryRecord \<Rightarrow> bytes" where
  "record_bytes cfg r =
     (let kb = take (COMMENTARY_NAME_LENGTH cfg) (utf8_encode (commentaryName r));
          nb = take (PLAYER_NAME_OFFSET cfg + PLAYER_NAME_LENGTH cfg) (utf8_encode (playerName r))
      in kb @ replicate (COMMENTARY_NAME_LENGTH cfg - length kb) 0 @
         nb @ replicate (RECORD_SIZE cfg - COMMENTARY_NAME_LENGTH cfg - length nb) 0)"

text \<open>
  A four-byte field read back as a little-endian unsigned number.
\<close>

definition le_u32 :: "bytes \<Rightarrow> nat" where
  "le_u32 bs = foldr (\<lambda>b n. unat b + 256 * n) bs 0"

text \<open>
  The strings that a fixed-width field holds without loss: well-formed UTF-16 (every
  surrogate paired), no NUL, nothing for \<open>trim\<close> to remove, and a UTF-8 form of at most
  \<open>n\<close> bytes. A scalar value is a code point that is not a surrogate.
\<close>

definition is_scalar :: "nat \<Rightarrow> bool" where
  "is_scalar cp = (cp < 0x110000 \<and> \<not> (0xD800 \<le> cp \<and> cp \<le> 0xDFFF))"

fun well_formed :: "jsstring \<Rightarrow> bool" where
  "well_formed [] = True"
| "well_formed [u] = (\<not> is_high_surrogate (unat u) \<and> \<not> is_low_surrogate (unat u))"
| "well_formed (u # v # rest) =
     (if is_high_surrogate (unat u) then is_low_surrogate (unat v) \<and> well_formed rest
      else \<not> is_low_surrogate (unat u) \<and> well_formed (v # rest))"

definition field_safe :: "nat \<Rightarrow> jsstring \<Rightarrow> bool" where
  "field_safe n s \<longleftrightarrow>
     well_formed s \<and> 0 \<notin> set s \<and> trim s = s \<and> length (utf8_encode s) \<le> n"

text \<open>
  The alphabetical index in the specification's words: the letter a name starts with
  (its first code unit, uppercased), the 26 letters in order, the count of one letter, the
  running sum of the counts up to a letter, and the names that start with a letter at all.
\<close>

definition first_letter :: "platform \<Rightarrow> CommentaryRecord \<Rightarrow> jsstring" where
  "first_letter pf p = toUpperCase pf (charAt0 (playerName p))"

definition letter :: "nat \<Rightarrow> jsstring" where
  "letter i = fromCharCode (65 + i)"

definition letter_count :: "platform \<Rightarrow> CommentaryRecord list \<Rightarrow> nat \<Rightarrow> nat" where
  "letter_count pf players i = length (filter (\<lambda>p. first_letter pf p = letter i) players)"

definition cumulative_count :: "platform \<Rightarrow> CommentaryRecord list \<Rightarrow> nat \<Rightarrow> nat" where
  "cumulative_count pf players i = sum_list (map (letter_count pf players) [0..<Suc i])"

definition starts_with_letter :: "platform \<Rightarrow> CommentaryRecord \<Rightarrow> bool" where
  "starts_with_letter pf p = (first_letter pf p \<in> letter ` {0..<26})"

section \<open>\<open>save\<close> on a store\<close>

text \<open>
  Whether \<open>save\<close> changes the instance depends on which arrays it writes. Here the arrays
  live in a store: the record arrays and the byte arrays by reference, and the next
  free reference. An instance holds references to its list and its two metadata spans.
  Records are values: \<open>save\<close> reads their fields and never assigns to one.
\<close>

type_synonym ref = nat

record heap =
  record_arrays :: "ref \<Rightarrow> CommentaryRecord list"
  byte_arrays :: "ref \<Rightarrow> bytes"
  fresh :: ref

record parser_obj =
  obj_config :: PESConfig
  first_ref :: ref
  second_ref :: ref
  list_ref :: ref

text \<open>
  \<open>new Uint8Array(new ArrayBuffer(n))\<close> and \<open>[...players]\<close> allocate; \<open>Array.prototype.sort\<close>
  sorts the array it is called on, in place; \<open>intBuffer.set\<close> and the loops that call it
  write one byte array.
\<close>

definition new_bytes :: "bytes \<Rightarrow> heap \<Rightarrow> ref \<times> heap" where
  "new_bytes content h =
     (fresh h, h\<lparr>byte_arrays := (byte_arrays h)(fresh h := content), fresh := Suc (fresh h)\<rparr>)"

definition copy_array :: "ref \<Rightarrow> heap \<Rightarrow> ref \<times> heap" where
  "copy_array r h =
     (fresh h,
      h\<lparr>record_arrays := (record_arrays h)(fresh h := record_arrays h r),
        fresh := Suc (fresh h)\<rparr>)"

definition sort_in_place ::
  "(CommentaryRecord \<Rightarrow> CommentaryRecord \<Rightarrow> int) \<Rightarrow> ref \<Rightarrow> heap \<Rightarrow> heap" where
  "sort_in_place cmp r h =
     h\<lparr>record_arrays := (record_arrays h)(r := array_sort cmp (record_arrays h r))\<rparr>"

definition modify_bytes :: "ref \<Rightarrow> (bytes \<Rightarrow> error + bytes) \<Rightarrow> heap \<Rightarrow> (error + unit) \<times> heap" where
  "modify_bytes r f h =
     (case f (byte_arrays h r) of
        Inl e \<Rightarrow> (Inl e, h)
      | Inr b \<Rightarrow> (Inr (), h\<lparr>byte_arrays := (byte_arrays h)(r := b)\<rparr>))"

definition sortAndCountPlayers_h :: "platform \<Rightarrow> ref \<Rightarrow> heap \<Rightarrow> (ref \<times> counts) \<times> heap" where
  "sortAndCountPlayers_h pf players h =
     (let (sorted, h1) = copy_array players h;
          h2 = sort_in_place (\<lambda>a b. localeCompare pf (playerName a) (playerName b)) sorted h1;
          counts = map (\<lambda>i. (fromCharCode (65 + i), 0)) [0..<26]
      in ((sorted, fold (count_player pf) (record_arrays h2 sorted) counts), h2))"

text \<open>
  A statement after one that may throw.
\<close>

definition then_h ::
  "(error + unit) \<times> heap \<Rightarrow> (heap \<Rightarrow> (error + 'a) \<times> heap) \<Rightarrow> (error + 'a) \<times> heap" where
  "then_h m f = (case m of (Inl e, h) \<Rightarrow> (Inl e, h) | (Inr u, h) \<Rightarrow> f h)"

text \<open>
  \<open>save\<close>, statement by statement, returning the reference of the new buffer and the store
  as the call leaves it.
\<close>

definition save_h :: "platform \<Rightarrow> parser_obj \<Rightarrow> heap \<Rightarrow> (error + ref) \<times> heap" where
  "save_h pf this h =
     (let cfg = obj_config this;
          n = length (record_arrays h (list_ref this));
          (intBuffer, h1) =
            new_bytes (replicate (COMMENTARY_START_OFFSET cfg + n * RECORD_SIZE cfg) 0) h
      in then_h (modify_bytes intBuffer (\<lambda>b. set_at b (byte_arrays h1 (first_ref this)) 0) h1)
           (\<lambda>h2. then_h (modify_bytes intBuffer (\<lambda>b. set_at b (decimalToBytes n) 16) h2)
           (\<lambda>h3. then_h (modify_bytes intBuffer
                            (\<lambda>b. set_at b (byte_arrays h3 (second_ref this)) 20) h3)
           (\<lambda>h4. let ((sorted, counts), h5) = sortAndCountPlayers_h pf (list_ref this) h4
                  in then_h (modify_bytes intBuffer (write_index (map snd counts) 0 36) h5)
           (\<lambda>h6. then_h (modify_bytes intBuffer (write_totals n) h6)
           (\<lambda>h7. then_h (modify_bytes intBuffer
                            (\<lambda>b. write_records cfg (record_arrays h7 sorted)
                                   (COMMENTARY_START_OFFSET cfg) b) h7)
           (\<lambda>h8. (Inr intBuffer, h8))))))))"

text \<open>
  The instance that the references stand for, and what a step leaves alone: every
  array below an allocation mark.
\<close>

definition parser_of :: "parser_obj \<Rightarrow> heap \<Rightarrow> parser" where
  "parser_of this h =
     \<lparr>pesConfig = obj_config this,
      metadata = \<lparr>first = byte_arrays h (first_ref this),
                  second = byte_arrays h (second_ref this)\<rparr>,
      playerList = record_arrays h (list_ref this)\<rparr>"

definition same_below :: "ref \<Rightarrow> heap \<Rightarrow> heap \<Rightarrow> bool" where
  "same_below k h h' \<longleftrightarrow>
     k \<le> fresh h' \<and>
     (\<forall>r<k. record_arrays h' r = record_arrays h r \<and> byte_arrays h' r = byte_arrays h r)"

section \<open>Examples\<close>

text \<open>
  Inputs for the examples: an ASCII literal as bytes; the file of the specification's
  scenario, two records on the PES 2021 layout and three stray bytes; a platform whose
  collation and case mapping are those of ASCII; an instance on the PES 2017 layout; a
  list with a name that starts with a digit; an instance whose metadata lacks the
  magic bytes; a store that holds \<open>example_parser\<close>.
\<close>

definition ascii :: "string \<Rightarrow> bytes" where
  "ascii s = map (\<lambda>c. word_of_nat (of_char c)) s"

definition example_file :: bytes where
  "example_file =
     ascii ''SEPD'' @ replicate 12 0 @ [2, 0, 0, 0] @ replicate 124 0 @
     ascii ''EN_A1_P0_R000001'' @ replicate 16 0 @ ascii ''Ana'' @ replicate 61 0 @
     ascii ''EN_A1_P0_R000002'' @ replicate 16 0 @ ascii ''Bob'' @ replicate 61 0 @
     [1, 2, 3]"

definition ascii_upper :: "jsstring \<Rightarrow> jsstring" where
  "ascii_upper s = map (\<lambda>u. if 97 \<le> u \<and> u \<le> 122 then u - 32 else u) s"

fun compare_units :: "jsstring \<Rightarrow> jsstring \<Rightarrow> int" where
  "compare_units [] [] = 0"
| "compare_units [] (y # ys) = - 1"
| "compare_units (x # xs) [] = 1"
| "compare_units (x # xs) (y # ys) =
     (if x < y then - 1 else if y < x then 1 else compare_units xs ys)"

definition example_platform :: platform where
  "example_platform =
     \<lparr>localeCompare = (\<lambda>a b. compare_units (ascii_upper a) (ascii_upper b)),
      toUpperCase = ascii_upper\<rparr>"

definition example_parser_2017 :: parser where
  "example_parser_2017 =
     \<lparr>pesConfig = PES2017Config,
      metadata = \<lparr>first = ascii ''SEPD'' @ replicate 12 7, second = [1, 2, 3, 4] @ replicate 12 0\<rparr>,
      playerList =
        [\<lparr>commentaryName = js ''E_A1_P0_R000002'', playerName = js ''Bob''\<rparr>,
         \<lparr>commentaryName = js ''E_A1_P0_R000001'', playerName = js ''Ana''\<rparr>]\<rparr>"

definition digit_named :: "CommentaryRecord list" where
  "digit_named = [\<lparr>commentaryName = js ''EN_A1_P0_R000001'', playerName = js ''1''\<rparr>]"

definition no_magic_parser :: parser where
  "no_magic_parser =
     \<lparr>pesConfig = PES2017Config,
      metadata = \<lparr>first = [0, 0, 0, 0] @ replicate 12 0, second = replicate 16 0\<rparr>,
      playerList = []\<rparr>"

definition example_heap :: heap where
  "example_heap =
     \<lparr>record_arrays = (\<lambda>r. [])(0 := playerList example_parser),
      byte_arrays = (\<lambda>r. [])(1 := first (metadata example_parser),
                               2 := second (metadata example_parser)),
      fresh = 3\<rparr>"

definition example_obj :: parser_obj where
  "example_obj = \<lparr>obj_config = PES2021Config, first_ref = 1, second_ref = 2, list_ref = 0\<rparr>"

section \<open>Looking a record up by its key\<close>

lemma findIndex_nonneg: "findIndex P xs = - 1 \<or> 0 \<le> findIndex P xs"
  by (induction xs) (auto simp: Let_def)

lemma findIndex_absent: "findIndex P xs = - 1 \<longleftrightarrow> \<not> list_ex P xs"
proof (induction xs)
  case Nil
  show ?case by simp
next
  case (Cons x xs)
  have "findIndex P xs = - 1 \<or> 0 \<le> findIndex P xs" by (rule findIndex_nonneg)
  with Cons show ?case by (auto simp: Let_def)
qed

lemma findIndex_rename:
  "findIndex (\<lambda>p. commentaryName p = name) rs \<noteq> - 1 \<Longrightarrow>
   nat (findIndex (\<lambda>p. commentaryName p = name) rs) < length rs \<and>
   rs[nat (findIndex (\<lambda>p. commentaryName p = name) rs) :=
        (rs ! nat (findIndex (\<lambda>p. commentaryName p = name) rs))\<lparr>playerName := newName\<rparr>]
     = rename_first name newName rs"
proof (induction rs)
  case Nil
  then show ?case by simp
next
  case (Cons r rs)
  let ?i = "findIndex (\<lambda>p. commentaryName p = name) rs"
  show ?case
  proof (cases "commentaryName r = name")
    case True
    then show ?thesis by simp
  next
    case False
    with Cons.prems have ne: "?i \<noteq> - 1" by (auto simp: Let_def split: if_splits)
    have "?i = - 1 \<or> 0 \<le> ?i" by (rule findIndex_nonneg)
    with ne have nn: "0 \<le> ?i" by simp
    then have "nat (?i + 1) = Suc (nat ?i)" by simp
    with False ne Cons.IH show ?thesis by (simp add: Let_def)
  qed
qed

lemma findIndex_remove:
  "findIndex (\<lambda>p. commentaryName p = name) rs \<noteq> - 1 \<Longrightarrow>
   take (nat (findIndex (\<lambda>p. commentaryName p = name) rs)) rs @
   drop (nat (findIndex (\<lambda>p. commentaryName p = name) rs) + 1) rs
     = remove_first name rs"
proof (induction rs)
  case Nil
  then show ?case by simp
next
  case (Cons r rs)
  let ?i = "findIndex (\<lambda>p. commentaryName p = name) rs"
  show ?case
  proof (cases "commentaryName r = name")
    case True
    then show ?thesis by simp
  next
    case False
    with Cons.prems have ne: "?i \<noteq> - 1" by (auto simp: Let_def split: if_splits)
    have "?i = - 1 \<or> 0 \<le> ?i" by (rule findIndex_nonneg)
    with ne have nn: "0 \<le> ?i" by simp
    then have "nat (?i + 1) = Suc (nat ?i)" by simp
    with False ne Cons.IH show ?thesis by (simp add: Let_def)
  qed
qed

lemma key_absent_iff:
  "\<not> list_ex (\<lambda>p. commentaryName p = name) rs \<longleftrightarrow> name \<notin> commentaryName ` set rs"
  by (auto simp: list_ex_iff)

lemma update_by_name_eq:
  "update_by_name this name newName =
     (if name \<in> commentaryName ` set (playerList this)
      then (Inr (), this\<lparr>playerList := rename_first name newName (playerList this)\<rparr>)
      else (Inl NotFound, this))"
proof (cases "findIndex (\<lambda>p. commentaryName p = name) (playerList this) = - 1")
  case True
  then have "name \<notin> commentaryName ` set (playerList this)"
    by (simp add: findIndex_absent key_absent_iff)
  with True show ?thesis by (simp add: update_by_name_def)
next
  case False
  then have "name \<in> commentaryName ` set (playerList this)"
    using findIndex_absent key_absent_iff by blast
  with False findIndex_rename [OF False, of newName] show ?thesis
    by (simp add: update_by_name_def Let_def)
qed

lemma delete_by_name_eq:
  "delete_by_name this name =
     (if name \<in> commentaryName ` set (playerList this)
      then (Inr (), this\<lparr>playerList := remove_first name (playerList this)\<rparr>)
      else (Inl NotFound, this))"
proof (cases "findIndex (\<lambda>p. commentaryName p = name) (playerList this) = - 1")
  case True
  then have "name \<notin> commentaryName ` set (playerList this)"
    by (simp add: findIndex_absent key_absent_iff)
  with True show ?thesis by (simp add: delete_by_name_def)
next
  case False
  then have "name \<in> commentaryName ` set (playerList this)"
    using findIndex_absent key_absent_iff by blast
  with False findIndex_remove [OF False] show ?thesis
    by (simp add: delete_by_name_def Let_def)
qed

section \<open>The six-digit form of an id\<close>

lemma zero_padded_zero: "zero_padded k 0 = replicate k 48"
  by (induction k) (simp_all add: replicate_append_same)

lemma padStart_digits:
  "drop (length (padStart (digits_of n) k 48) - k) (padStart (digits_of n) k 48) = zero_padded k n"
proof (induction k arbitrary: n)
  case 0
  show ?case by simp
next
  case (Suc k)
  show ?case
  proof (cases "n < 10")
    case True
    then have "digits_of n = [word_of_nat (48 + n)]" by (simp add: digits_of.simps)
    with True show ?thesis by (simp add: padStart_def zero_padded_zero)
  next
    case False
    let ?ds = "digits_of (n div 10)"
    let ?x = "word_of_nat (48 + n mod 10) :: 16 word"
    from False have d: "digits_of n = ?ds @ [?x]" by (subst digits_of.simps) simp
    have s: "padStart (digits_of n) (Suc k) 48 = padStart ?ds k 48 @ [?x]"
      by (simp add: padStart_def d)
    have le: "length (padStart ?ds k 48) - k \<le> length (padStart ?ds k 48)" by simp
    have "drop (length (padStart ?ds k 48 @ [?x]) - Suc k) (padStart ?ds k 48 @ [?x])
          = drop (length (padStart ?ds k 48) - k) (padStart ?ds k 48) @ [?x]"
      using le by simp
    with Suc.IH [of "n div 10"] s show ?thesis by simp
  qed
qed

lemma zero_padded_mod: "zero_padded k (n mod 10 ^ k) = zero_padded k n"
proof (induction k arbitrary: n)
  case 0
  show ?case by simp
next
  case (Suc k)
  have a: "n mod (10 * 10 ^ k) div 10 = (n div 10) mod 10 ^ k"
    by (simp add: mod_mult2_eq)
  have b: "n mod (10 * 10 ^ k) mod 10 = n mod 10"
    by (simp add: mod_mod_cancel)
  show ?case using Suc.IH [of "n div 10"] by (simp add: a b)
qed

lemma formatTo6String_nat:
  assumes "0 \<le> i"
  shows "formatTo6String i = zero_padded 6 (nat i mod 1000000)"
proof -
  from assms have "formatTo6String i = zero_padded 6 (nat i)"
    using padStart_digits [of "nat i" 6]
    by (simp add: formatTo6String_def number_toString_def Let_def)
  also have "\<dots> = zero_padded 6 (nat i mod 10 ^ 6)" by (rule zero_padded_mod [symmetric])
  finally show ?thesis by simp
qed

lemma zero_padded_6:
  "zero_padded 6 n =
     [word_of_nat (48 + n div 100000 mod 10), word_of_nat (48 + n div 10000 mod 10),
      word_of_nat (48 + n div 1000 mod 10), word_of_nat (48 + n div 100 mod 10),
      word_of_nat (48 + n div 10 mod 10), word_of_nat (48 + n mod 10)]"
proof -
  have six: "(6::nat) = Suc (Suc (Suc (Suc (Suc (Suc 0)))))" by simp
  show ?thesis by (subst six) (simp add: div_mult2_eq [symmetric])
qed



section \<open>Writing into a buffer\<close>

lemma bindE_Inr [simp]: "bindE (Inr v) f = f v"
  by (simp add: bindE_def)

lemma bindE_Inl [simp]: "bindE (Inl e) f = Inl e"
  by (simp add: bindE_def)

lemma length_decimalToBytes [simp]: "length (decimalToBytes n) = 4"
  by (simp add: decimalToBytes_def Let_def)

lemma set_at_segment:
  "length pre = off \<Longrightarrow> length old = length src \<Longrightarrow>
   set_at (pre @ old @ post) src off = Inr (pre @ src @ post)"
  by (simp add: set_at_def)

lemma running_sums_Cons:
  "running_sums start (c # cs) = (start + c) # running_sums (start + c) cs"
  by (simp add: running_sums_def map_upt_Suc add.assoc del: upt_Suc)

lemma write_index_segment:
  "length pre = p \<Longrightarrow> length old = 4 * length cs \<Longrightarrow>
   write_index cs start p (pre @ old @ post) =
     Inr (pre @ concat (map decimalToBytes (running_sums start cs)) @ post)"
proof (induction cs arbitrary: start p pre old)
  case Nil
  then show ?case by (simp add: running_sums_def)
next
  case (Cons c cs)
  let ?d = "decimalToBytes (start + c)"
  from Cons.prems have old: "old = take 4 old @ drop 4 old" "length (take 4 old) = length ?d"
    "length (drop 4 old) = 4 * length cs" by simp_all
  have "set_at (pre @ take 4 old @ (drop 4 old @ post)) ?d p = Inr (pre @ ?d @ (drop 4 old @ post))"
    using Cons.prems(1) old(2) by (rule set_at_segment)
  then have first: "set_at (pre @ old @ post) ?d p = Inr ((pre @ ?d) @ drop 4 old @ post)"
    using old(1) by (metis append.assoc)
  have "length (pre @ ?d) = p + 4" using Cons.prems(1) by simp
  from Cons.IH [OF this old(3), of "start + c"] first
  show ?case by (simp add: running_sums_Cons)
qed

lemma length_record_bytes:
  "COMMENTARY_NAME_LENGTH cfg + PLAYER_NAME_OFFSET cfg + PLAYER_NAME_LENGTH cfg \<le> RECORD_SIZE cfg
   \<Longrightarrow> length (record_bytes cfg r) = RECORD_SIZE cfg"
  by (simp add: record_bytes_def Let_def)

lemma write_one_record:
  assumes fit: "COMMENTARY_NAME_LENGTH cfg + PLAYER_NAME_OFFSET cfg + PLAYER_NAME_LENGTH cfg
                  \<le> RECORD_SIZE cfg"
    and pre: "length pre = p"
  shows "bindE (set_at (pre @ replicate (RECORD_SIZE cfg) 0 @ post)
              (slice (utf8_encode (commentaryName v)) 0 (COMMENTARY_NAME_LENGTH cfg)) p)
          (\<lambda>b1. bindE (set_at b1
                   (slice (utf8_encode (playerName v)) 0
                      (PLAYER_NAME_OFFSET cfg + PLAYER_NAME_LENGTH cfg))
                   (p + COMMENTARY_NAME_LENGTH cfg)) f)
         = f (pre @ record_bytes cfg v @ post)"
proof -
  let ?K = "COMMENTARY_NAME_LENGTH cfg"
  let ?N = "PLAYER_NAME_OFFSET cfg + PLAYER_NAME_LENGTH cfg"
  let ?R = "RECORD_SIZE cfg"
  let ?kb = "take ?K (utf8_encode (commentaryName v))"
  let ?nb = "take ?N (utf8_encode (playerName v))"
  have kl: "length ?kb \<le> ?K" and nl: "length ?nb \<le> ?N" by simp_all
  have z1: "replicate ?R (0::byte) = replicate (length ?kb) 0 @ replicate (?K - length ?kb) 0 @
             replicate (length ?nb) 0 @ replicate (?R - ?K - length ?nb) 0"
    using fit kl nl by (simp add: replicate_add [symmetric] del: length_take)
  have s1: "set_at (pre @ replicate (length ?kb) 0 @
                (replicate (?K - length ?kb) 0 @ replicate (length ?nb) 0 @
                 replicate (?R - ?K - length ?nb) 0 @ post)) ?kb p
            = Inr (pre @ ?kb @ (replicate (?K - length ?kb) 0 @ replicate (length ?nb) 0 @
                 replicate (?R - ?K - length ?nb) 0 @ post))"
    using pre by (intro set_at_segment) simp_all
  have l2: "length (pre @ ?kb @ replicate (?K - length ?kb) 0) = p + ?K"
    using pre kl by (simp del: length_take)
  have s2: "set_at ((pre @ ?kb @ replicate (?K - length ?kb) 0) @ replicate (length ?nb) 0 @
                 (replicate (?R - ?K - length ?nb) 0 @ post)) ?nb (p + ?K)
            = Inr ((pre @ ?kb @ replicate (?K - length ?kb) 0) @ ?nb @
                 (replicate (?R - ?K - length ?nb) 0 @ post))"
    using l2 by (intro set_at_segment) simp_all
  show ?thesis
    unfolding slice_def
    using s1 s2 by (simp add: z1 record_bytes_def Let_def del: length_take replicate_eq_replicate)
qed

lemma write_records_zeroed:
  assumes fit: "COMMENTARY_NAME_LENGTH cfg + PLAYER_NAME_OFFSET cfg + PLAYER_NAME_LENGTH cfg
                  \<le> RECORD_SIZE cfg"
  shows "length pre = p \<Longrightarrow>
         write_records cfg rs p (pre @ replicate (length rs * RECORD_SIZE cfg) 0) =
           Inr (pre @ concat (map (record_bytes cfg) rs))"
proof (induction rs arbitrary: p pre)
  case Nil
  then show ?case by simp
next
  case (Cons r rs)
  have z: "replicate (length (r # rs) * RECORD_SIZE cfg) (0::byte) =
           replicate (RECORD_SIZE cfg) 0 @ replicate (length rs * RECORD_SIZE cfg) 0"
    by (simp add: replicate_add [symmetric])
  have l: "length (pre @ record_bytes cfg r) = p + RECORD_SIZE cfg"
    using Cons.prems fit by (simp add: length_record_bytes)
  show ?case
    unfolding z write_records.simps
    using write_one_record [OF fit Cons.prems, of "replicate (length rs * RECORD_SIZE cfg) 0" r
        "write_records cfg rs (p + RECORD_SIZE cfg)"]
      Cons.IH [OF l]
    by simp
qed

lemma insort_by_mset: "mset (insort_by cmp x xs) = add_mset x (mset xs)"
  by (induction xs) auto

lemma array_sort_mset: "mset (array_sort cmp xs) = mset xs"
  by (induction xs) (simp_all add: array_sort_def insort_by_mset)

lemma array_sort_length: "length (array_sort cmp xs) = length xs"
  using array_sort_mset [of cmp xs] by (metis size_mset)

lemma array_sort_set: "set (array_sort cmp xs) = set xs"
  using array_sort_mset [of cmp xs] by (metis set_mset_mset)

lemma length_increment: "length (increment k cs) = length cs"
  by (induction cs) auto

lemma length_count_player: "length (count_player pf p cs) = length cs"
  by (simp add: count_player_def Let_def length_increment)

lemma length_fold_count_player: "length (fold (count_player pf) ps cs) = length cs"
  by (induction ps arbitrary: cs) (simp_all add: length_count_player)

lemma length_counts: "length (snd (sortAndCountPlayers pf players)) = 26"
  by (simp add: sortAndCountPlayers_def Let_def length_fold_count_player)

lemma sorted_eq: "fst (sortAndCountPlayers pf players) =
    array_sort (\<lambda>a b. localeCompare pf (playerName a) (playerName b)) players"
  by (simp add: sortAndCountPlayers_def Let_def)

lemma length_running_sums [simp]: "length (running_sums s cs) = length cs"
  by (simp add: running_sums_def)

lemma length_concat_decimalToBytes [simp]:
  "length (concat (map decimalToBytes xs)) = 4 * length xs"
  by (induction xs) simp_all

lemma write_header_zeroed:
  assumes "length (first meta) = 16" and "length (second meta) = 16"
  shows "write_header meta n (replicate 36 0 @ post) =
           Inr (first meta @ decimalToBytes n @ second meta @ post)"
proof -
  have z: "replicate 36 (0::byte) = replicate 16 0 @ replicate 4 0 @ replicate 16 0"
    by (simp add: replicate_add [symmetric])
  have s1: "set_at ([] @ replicate 16 0 @ (replicate 4 0 @ replicate 16 0 @ post)) (first meta) 0
      = Inr ([] @ first meta @ (replicate 4 0 @ replicate 16 0 @ post))"
    using assms by (intro set_at_segment) simp_all
  have s2: "set_at (first meta @ replicate 4 0 @ (replicate 16 0 @ post)) (decimalToBytes n) 16
      = Inr (first meta @ decimalToBytes n @ (replicate 16 0 @ post))"
    using assms by (intro set_at_segment) simp_all
  have s3: "set_at ((first meta @ decimalToBytes n) @ replicate 16 0 @ post) (second meta) 20
      = Inr ((first meta @ decimalToBytes n) @ second meta @ post)"
    using assms by (intro set_at_segment) simp_all
  show ?thesis
    using s1 s2 s3 by (simp add: write_header_def z del: replicate_eq_replicate)
qed

lemma write_totals_segment:
  assumes "length pre = 136" and "length o1 = 4" and "length o2 = 4"
  shows "write_totals n (pre @ o1 @ o2 @ post) =
           Inr (pre @ decimalToBytes n @ decimalToBytes n @ post)"
proof -
  have s1: "set_at (pre @ o1 @ (o2 @ post)) (decimalToBytes n) 136
      = Inr (pre @ decimalToBytes n @ (o2 @ post))"
    using assms by (intro set_at_segment) simp_all
  have s2: "set_at ((pre @ decimalToBytes n) @ o2 @ post) (decimalToBytes n) 140
      = Inr ((pre @ decimalToBytes n) @ decimalToBytes n @ post)"
    using assms by (intro set_at_segment) simp_all
  show ?thesis using s1 s2 by (simp add: write_totals_def)
qed

lemma save_explicit:
  assumes m1: "length (first (metadata this)) = 16"
    and m2: "length (second (metadata this)) = 16"
    and start: "144 \<le> COMMENTARY_START_OFFSET (pesConfig this)"
    and fit: "COMMENTARY_NAME_LENGTH (pesConfig this) + PLAYER_NAME_OFFSET (pesConfig this) +
              PLAYER_NAME_LENGTH (pesConfig this) \<le> RECORD_SIZE (pesConfig this)"
  shows "save pf this =
     Inr (header_bytes (metadata this) (length (playerList this))
            (map snd (snd (sortAndCountPlayers pf (playerList this)))) @
          replicate (COMMENTARY_START_OFFSET (pesConfig this) - 144) 0 @
          concat (map (record_bytes (pesConfig this))
                    (fst (sortAndCountPlayers pf (playerList this)))))"
proof -
  obtain sorted counts where sc: "sortAndCountPlayers pf (playerList this) = (sorted, counts)"
    by (cases "sortAndCountPlayers pf (playerList this)")
  let ?cfg = "pesConfig this"
  let ?n = "length (playerList this)"
  let ?S = "COMMENTARY_START_OFFSET ?cfg"
  let ?R = "RECORD_SIZE ?cfg"
  let ?cs = "map snd counts"
  let ?rs = "running_sums 0 ?cs"
  let ?f = "first (metadata this)"
  let ?s = "second (metadata this)"
  let ?d = "decimalToBytes ?n"
  let ?idx = "concat (map decimalToBytes (take 25 ?rs))"
  let ?gap = "replicate (?S - 144) (0::byte)"
  let ?zr = "replicate (length sorted * ?R) (0::byte)"
  have ls: "length sorted = ?n"
    using sorted_eq [of pf "playerList this"] by (simp add: sc array_sort_length)
  have lc: "length ?cs = 26"
    using length_counts [of pf "playerList this"] by (simp add: sc)
  have buf: "replicate (?S + ?n * ?R) (0::byte) =
      replicate 36 0 @ replicate 104 0 @ replicate 4 0 @ ?gap @ ?zr"
    using start by (simp add: replicate_add [symmetric] ls)
  have h: "write_header (metadata this) ?n
             (replicate 36 0 @ replicate 104 0 @ replicate 4 0 @ ?gap @ ?zr)
      = Inr (?f @ ?d @ ?s @ replicate 104 0 @ replicate 4 0 @ ?gap @ ?zr)"
    using m1 m2 by (rule write_header_zeroed)
  have "take (Suc 25) ?rs = take 25 ?rs @ [?rs ! 25]"
    using lc by (intro take_Suc_conv_app_nth) simp
  moreover have "take (Suc 25) ?rs = ?rs" using lc by simp
  ultimately have split: "?rs = take 25 ?rs @ [?rs ! 25]" by simp
  have "concat (map decimalToBytes ?rs) =
        concat (map decimalToBytes (take 25 ?rs @ [?rs ! 25]))"
    using split by simp
  then have cc: "concat (map decimalToBytes ?rs) = ?idx @ decimalToBytes (?rs ! 25)"
    by simp
  have "write_index ?cs 0 36 ((?f @ ?d @ ?s) @ replicate 104 0 @ (replicate 4 0 @ ?gap @ ?zr))
      = Inr ((?f @ ?d @ ?s) @ concat (map decimalToBytes ?rs) @ (replicate 4 0 @ ?gap @ ?zr))"
    using m1 m2 lc by (intro write_index_segment) simp_all
  then have i: "write_index ?cs 0 36 (?f @ ?d @ ?s @ replicate 104 0 @ replicate 4 0 @ ?gap @ ?zr)
      = Inr (?f @ ?d @ ?s @ ?idx @ decimalToBytes (?rs ! 25) @ replicate 4 0 @ ?gap @ ?zr)"
    by (simp add: cc)
  have "write_totals ?n ((?f @ ?d @ ?s @ ?idx) @ decimalToBytes (?rs ! 25) @ replicate 4 0 @
                          (?gap @ ?zr))
      = Inr ((?f @ ?d @ ?s @ ?idx) @ ?d @ ?d @ (?gap @ ?zr))"
    using m1 m2 lc by (intro write_totals_segment) simp_all
  then have t: "write_totals ?n (?f @ ?d @ ?s @ ?idx @ decimalToBytes (?rs ! 25) @
                                   replicate 4 0 @ ?gap @ ?zr)
      = Inr (?f @ ?d @ ?s @ ?idx @ ?d @ ?d @ ?gap @ ?zr)"
    by simp
  have "length (?f @ ?d @ ?s @ ?idx @ ?d @ ?d @ ?gap) = ?S"
    using m1 m2 lc start by simp
  from write_records_zeroed [OF fit this, of sorted]
  have r: "write_records ?cfg sorted ?S (?f @ ?d @ ?s @ ?idx @ ?d @ ?d @ ?gap @ ?zr)
      = Inr (?f @ ?d @ ?s @ ?idx @ ?d @ ?d @ ?gap @ concat (map (record_bytes ?cfg) sorted))"
    by simp
  have "save pf this =
      Inr (?f @ ?d @ ?s @ ?idx @ ?d @ ?d @ ?gap @ concat (map (record_bytes ?cfg) sorted))"
    unfolding save_def Let_def sc prod.case buf h bindE_Inr i t r ..
  then show ?thesis by (simp add: sc header_bytes_def)
qed

section \<open>UTF-8 and UTF-16\<close>

lemma unat_byte: "n < 256 \<Longrightarrow> unat (word_of_nat n :: byte) = n"
  by (simp only: unat_of_nat) simp

lemma unat_unit: "n < 65536 \<Longrightarrow> unat (word_of_nat n :: 16 word) = n"
  by (simp only: unat_of_nat) simp

lemma mod_add_mult: "(a::nat) < m \<Longrightarrow> (k * m + a) mod m = a"
  by simp

lemma split64: "(n::nat) = n div 64 * 64 + n mod 64" "n mod 64 < 64"
  by simp_all

lemma lead_byte:
  assumes "base + x < 256"
  shows "unat (word_of_nat (base + x) :: byte) = base + x"
  using assms by (rule unat_byte)

lemma utf8_run_1:
  assumes "cp < 0x80"
  shows "utf8_run utf8_init (utf8_bytes cp @ rest) = cp # utf8_run utf8_init rest"
proof -
  have u: "unat (word_of_nat cp :: byte) = cp" using assms by (intro unat_byte) simp
  have bytes: "utf8_bytes cp = [word_of_nat cp]" using assms by (simp add: utf8_bytes_def)
  show ?thesis
    unfolding bytes append_Cons append_Nil utf8_run.simps u
    using assms by (simp add: utf8_step_def utf8_lead_def utf8_init_def)
qed

lemma utf8_run_2:
  assumes "0x80 \<le> cp" "cp < 0x800"
  shows "utf8_run utf8_init (utf8_bytes cp @ rest) = cp # utf8_run utf8_init rest"
proof -
  define a where "a = cp div 64"
  define b where "b = cp mod 64"
  have cp: "cp = a * 64 + b" and b: "b < 64" unfolding a_def b_def by (rule split64)+
  have a: "2 \<le> a" "a < 32" using assms cp b by arith+
  have u1: "unat (word_of_nat (192 + a) :: byte) = 192 + a" using a by (intro unat_byte) simp
  have u2: "unat (word_of_nat (128 + b) :: byte) = 128 + b" using b by (intro unat_byte) simp
  have m1: "(192 + a) mod 32 = a" using mod_add_mult [of a 32 6] a by simp
  have m2: "(128 + b) mod 64 = b" using mod_add_mult [of b 64 2] b by simp
  have "\<not> cp < 128" using assms by simp
  then have bytes: "utf8_bytes cp = [word_of_nat (192 + a), word_of_nat (128 + b)]"
    using assms unfolding utf8_bytes_def a_def b_def by (simp del: of_nat_add)
  have l1: "utf8_lead (192 + a) = (utf8_init\<lparr>bytes_needed := 1, code_point := a\<rparr>, [])"
    using a by (simp add: utf8_lead_def m1)
  have s2: "utf8_step (utf8_init\<lparr>bytes_needed := 1, code_point := a\<rparr>) (128 + b) = (utf8_init, [cp])"
    using b by (simp add: utf8_step_def utf8_init_def m2 cp)
  have s1: "utf8_step utf8_init (192 + a) = (utf8_init\<lparr>bytes_needed := 1, code_point := a\<rparr>, [])"
    using l1 by (simp add: utf8_step_def utf8_init_def)
  show ?thesis
    by (simp only: bytes append_Cons append_Nil utf8_run.simps u1 u2 s1 s2 Let_def prod.case)
qed

lemma utf8_run_3:
  assumes "0x800 \<le> cp" "cp < 0x10000" "\<not> (0xD800 \<le> cp \<and> cp \<le> 0xDFFF)"
  shows "utf8_run utf8_init (utf8_bytes cp @ rest) = cp # utf8_run utf8_init rest"
proof -
  define q where "q = cp div 64"
  define a where "a = q div 64"
  define b where "b = q mod 64"
  define c where "c = cp mod 64"
  have cp: "cp = q * 64 + c" and c: "c < 64" unfolding q_def c_def by (rule split64)+
  have q: "q = a * 64 + b" and b: "b < 64" unfolding a_def b_def by (rule split64)+
  have a: "a < 16" using assms cp q b c by arith
  have lo: "a = 0 \<Longrightarrow> 32 \<le> b" using assms cp q b c by arith
  have hi: "a = 13 \<Longrightarrow> b < 32" using assms cp q b c by arith
  have u1: "unat (word_of_nat (224 + a) :: byte) = 224 + a" using a by (intro unat_byte) simp
  have u2: "unat (word_of_nat (128 + b) :: byte) = 128 + b" using b by (intro unat_byte) simp
  have u3: "unat (word_of_nat (128 + c) :: byte) = 128 + c" using c by (intro unat_byte) simp
  have m1: "(224 + a) mod 16 = a" using mod_add_mult [of a 16 14] a by simp
  have m2: "(128 + b) mod 64 = b" using mod_add_mult [of b 64 2] b by simp
  have m3: "(128 + c) mod 64 = c" using mod_add_mult [of c 64 2] c by simp
  have d1: "cp div 4096 = a" unfolding a_def q_def by (simp add: div_mult2_eq)
  have d2: "cp div 64 mod 64 = b" unfolding b_def q_def ..
  have "\<not> cp < 128" "\<not> cp < 2048" using assms by simp_all
  then have bytes: "utf8_bytes cp =
      [word_of_nat (224 + a), word_of_nat (128 + b), word_of_nat (128 + c)]"
    using assms unfolding utf8_bytes_def d1 d2 c_def by (simp del: of_nat_add)
  define st1 where "st1 = utf8_init\<lparr>bytes_needed := 2, code_point := a,
      lower_boundary := (if 224 + a = 0xE0 then 0xA0 else 0x80),
      upper_boundary := (if 224 + a = 0xED then 0x9F else 0xBF)\<rparr>"
  define st2 where "st2 = st1\<lparr>code_point := a * 64 + b, bytes_seen := 1,
      lower_boundary := 0x80, upper_boundary := 0xBF\<rparr>"
  have s1: "utf8_step utf8_init (224 + a) = (st1, [])"
    using a by (simp add: utf8_step_def utf8_lead_def utf8_init_def m1 st1_def)
  have s2: "utf8_step st1 (128 + b) = (st2, [])"
    using b lo hi by (auto simp: utf8_step_def utf8_init_def m2 st1_def st2_def)
  have s3: "utf8_step st2 (128 + c) = (utf8_init, [cp])"
    using c by (simp add: utf8_step_def utf8_init_def m3 st1_def st2_def cp q)
  show ?thesis
    by (simp only: bytes append_Cons append_Nil utf8_run.simps u1 u2 u3 s1 s2 s3 Let_def prod.case)
qed

lemma utf8_run_4:
  assumes "0x10000 \<le> cp" "cp < 0x110000"
  shows "utf8_run utf8_init (utf8_bytes cp @ rest) = cp # utf8_run utf8_init rest"
proof -
  define q where "q = cp div 64"
  define r where "r = q div 64"
  define a where "a = r div 64"
  define b where "b = r mod 64"
  define c where "c = q mod 64"
  define d where "d = cp mod 64"
  have cp: "cp = q * 64 + d" and d: "d < 64" unfolding q_def d_def by (rule split64)+
  have q: "q = r * 64 + c" and c: "c < 64" unfolding r_def c_def by (rule split64)+
  have r: "r = a * 64 + b" and b: "b < 64" unfolding a_def b_def by (rule split64)+
  have a: "a < 5" using assms cp q r b c d by arith
  have lo: "a = 0 \<Longrightarrow> 16 \<le> b" using assms cp q r b c d by arith
  have hi: "a = 4 \<Longrightarrow> b < 16" using assms cp q r b c d by arith
  have u1: "unat (word_of_nat (240 + a) :: byte) = 240 + a" using a by (intro unat_byte) simp
  have u2: "unat (word_of_nat (128 + b) :: byte) = 128 + b" using b by (intro unat_byte) simp
  have u3: "unat (word_of_nat (128 + c) :: byte) = 128 + c" using c by (intro unat_byte) simp
  have u4: "unat (word_of_nat (128 + d) :: byte) = 128 + d" using d by (intro unat_byte) simp
  have m1: "(240 + a) mod 8 = a" using mod_add_mult [of a 8 30] a by simp
  have m2: "(128 + b) mod 64 = b" using mod_add_mult [of b 64 2] b by simp
  have m3: "(128 + c) mod 64 = c" using mod_add_mult [of c 64 2] c by simp
  have m4: "(128 + d) mod 64 = d" using mod_add_mult [of d 64 2] d by simp
  have d0: "cp div 4096 = r" unfolding r_def q_def by (simp add: div_mult2_eq)
  have d1: "cp div 262144 = a" unfolding a_def r_def q_def by (simp add: div_mult2_eq)
  have d2: "cp div 4096 mod 64 = b" unfolding d0 b_def ..
  have d3: "cp div 64 mod 64 = c" unfolding c_def q_def ..
  have "\<not> cp < 128" "\<not> cp < 2048" "\<not> cp < 65536" using assms by simp_all
  then have bytes: "utf8_bytes cp =
      [word_of_nat (240 + a), word_of_nat (128 + b), word_of_nat (128 + c), word_of_nat (128 + d)]"
    using assms unfolding utf8_bytes_def d1 d2 d3 d_def by (simp del: of_nat_add)
  define st1 where "st1 = utf8_init\<lparr>bytes_needed := 3, code_point := a,
      lower_boundary := (if 240 + a = 0xF0 then 0x90 else 0x80),
      upper_boundary := (if 240 + a = 0xF4 then 0x8F else 0xBF)\<rparr>"
  define st2 where "st2 = st1\<lparr>code_point := a * 64 + b, bytes_seen := 1,
      lower_boundary := 0x80, upper_boundary := 0xBF\<rparr>"
  define st3 where "st3 = st2\<lparr>code_point := (a * 64 + b) * 64 + c, bytes_seen := 2,
      lower_boundary := 0x80, upper_boundary := 0xBF\<rparr>"
  have s1: "utf8_step utf8_init (240 + a) = (st1, [])"
    using a by (simp add: utf8_step_def utf8_lead_def utf8_init_def m1 st1_def)
  have s2: "utf8_step st1 (128 + b) = (st2, [])"
    using b lo hi by (auto simp: utf8_step_def utf8_init_def m2 st1_def st2_def)
  have s3: "utf8_step st2 (128 + c) = (st3, [])"
    using c by (simp add: utf8_step_def utf8_init_def m3 st1_def st2_def st3_def)
  have s4: "utf8_step st3 (128 + d) = (utf8_init, [cp])"
    using d by (simp add: utf8_step_def utf8_init_def m4 st1_def st2_def st3_def cp q r)
  show ?thesis
    by (simp only: bytes append_Cons append_Nil utf8_run.simps u1 u2 u3 u4 s1 s2 s3 s4
        Let_def prod.case)
qed

lemma utf8_run_scalar:
  assumes "is_scalar cp"
  shows "utf8_run utf8_init (utf8_bytes cp @ rest) = cp # utf8_run utf8_init rest"
proof -
  consider "cp < 0x80" | "0x80 \<le> cp \<and> cp < 0x800"
    | "0x800 \<le> cp \<and> cp < 0x10000 \<and> \<not> (0xD800 \<le> cp \<and> cp \<le> 0xDFFF)"
    | "0x10000 \<le> cp \<and> cp < 0x110000"
    using assms unfolding is_scalar_def by arith
  then show ?thesis
  proof cases
    case 1 then show ?thesis by (rule utf8_run_1)
  next
    case 2 then show ?thesis by (simp add: utf8_run_2)
  next
    case 3 then show ?thesis by (simp add: utf8_run_3)
  next
    case 4 then show ?thesis by (simp add: utf8_run_4)
  qed
qed

lemma utf8_run_scalars:
  "list_all is_scalar cps \<Longrightarrow>
   utf8_run utf8_init (concat (map utf8_bytes cps) @ rest) = cps @ utf8_run utf8_init rest"
  by (induction cps) (simp_all add: utf8_run_scalar)

lemma unat_lt_unit: "unat (u :: 16 word) < 65536"
  using unsigned_less [of u] by simp

lemma scalar_values_scalar: "list_all is_scalar (scalar_values s)"
proof (induction s rule: scalar_values.induct)
  case 1
  show ?case by simp
next
  case (2 u)
  have "unat u < 65536" by (rule unat_lt_unit)
  then show ?case
    by (auto simp: is_scalar_def is_high_surrogate_def is_low_surrogate_def)
next
  case (3 u v rest)
  have u: "unat u < 65536" and v: "unat v < 65536" by (rule unat_lt_unit)+
  show ?case
  proof (cases "is_high_surrogate (unat u)")
    case True
    show ?thesis
    proof (cases "is_low_surrogate (unat v)")
      case low: True
      have "is_scalar (0x10000 + (unat u - 0xD800) * 1024 + (unat v - 0xDC00))"
        using True low unfolding is_scalar_def is_high_surrogate_def is_low_surrogate_def
        by arith
      with True low 3 show ?thesis by simp
    next
      case False
      with True 3 show ?thesis by (simp add: is_scalar_def)
    qed
  next
    case False
    with 3 u show ?thesis
      by (auto simp: is_scalar_def is_high_surrogate_def is_low_surrogate_def)
  qed
qed

lemma utf16_units_bmp:
  "\<not> is_high_surrogate (unat u) \<Longrightarrow> utf16_units (unat (u :: 16 word)) = [u]"
  using unat_lt_unit [of u] by (simp add: utf16_units_def)

lemma utf16_units_pair:
  assumes "is_high_surrogate (unat u)" and "is_low_surrogate (unat v)"
  shows "utf16_units (0x10000 + (unat u - 0xD800) * 1024 + (unat v - 0xDC00)) = [u, v]"
proof -
  define h where "h = unat u - 0xD800"
  define l where "l = unat v - 0xDC00"
  have h: "unat u = 0xD800 + h" and l: "unat v = 0xDC00 + l" and lb: "l < 1024"
    using assms unfolding h_def l_def is_high_surrogate_def is_low_surrogate_def by arith+
  have d: "(h * 1024 + l) div 1024 = h" and m: "(h * 1024 + l) mod 1024 = l"
    using lb by simp_all
  have "(word_of_nat (0xD800 + h) :: 16 word) = u" "(word_of_nat (0xDC00 + l) :: 16 word) = v"
    unfolding h [symmetric] l [symmetric] by simp_all
  then show ?thesis
    unfolding utf16_units_def h_def [symmetric] l_def [symmetric]
    by (simp add: d m lb del: of_nat_add)
qed

lemma well_formed_units:
  "well_formed s \<Longrightarrow> concat (map utf16_units (scalar_values s)) = s"
proof (induction s rule: scalar_values.induct)
  case 1
  show ?case by simp
next
  case (2 u)
  then show ?case by (simp add: utf16_units_bmp)
next
  case (3 u v rest)
  show ?case
  proof (cases "is_high_surrogate (unat u)")
    case True
    with 3 show ?thesis by (simp add: utf16_units_pair)
  next
    case False
    with 3 show ?thesis by (simp add: utf16_units_bmp)
  qed
qed

lemma utf8_run_zeros: "utf8_run utf8_init (replicate k 0) = replicate k 0"
  by (induction k) (simp_all add: utf8_step_def utf8_lead_def utf8_init_def)

lemma utf16_units_zeros: "concat (replicate k (utf16_units 0)) = replicate k 0"
  by (induction k) (simp_all add: utf16_units_def)

lemma unat_bom: "unat (u :: 16 word) = 0xFEFF \<Longrightarrow> u = 0xFEFF"
proof -
  assume "unat u = 0xFEFF"
  then have "(word_of_nat (unat u) :: 16 word) = word_of_nat 0xFEFF" by (rule arg_cong)
  then show ?thesis by simp
qed

lemma scalar_values_hd:
  assumes wf: "well_formed (u # rest)" and nb: "u \<noteq> 0xFEFF"
  shows "\<exists>c cs. scalar_values (u # rest) = c # cs \<and> c \<noteq> 0xFEFF"
proof -
  from nb have n: "unat u \<noteq> 0xFEFF" using unat_bom by blast
  show ?thesis
  proof (cases rest)
    case Nil
    with n show ?thesis by simp
  next
    case (Cons v rest')
    with wf n show ?thesis by (auto simp: is_low_surrogate_def)
  qed
qed

section \<open>Fields and records\<close>

lemma strip_bom_zeros: "strip_bom (replicate k 0) = replicate k 0"
  by (cases k) (simp_all add: strip_bom_def)

lemma utf8_decode_padded:
  assumes wf: "well_formed s" and nb: "s = [] \<or> hd s \<noteq> 0xFEFF"
  shows "utf8_decode (utf8_encode s @ replicate k 0) = s @ replicate k 0"
proof -
  have run: "utf8_run utf8_init (utf8_encode s @ replicate k 0) = scalar_values s @ replicate k 0"
    by (simp add: utf8_encode_def utf8_run_scalars scalar_values_scalar utf8_run_zeros)
  have bom: "strip_bom (scalar_values s @ replicate k 0) = scalar_values s @ replicate k 0"
  proof (cases s)
    case Nil
    then show ?thesis by (simp add: strip_bom_zeros)
  next
    case (Cons u rest)
    with nb have "u \<noteq> 0xFEFF" by simp
    with wf Cons obtain c cs where "scalar_values s = c # cs" "c \<noteq> 0xFEFF"
      using scalar_values_hd by blast
    then show ?thesis by (simp add: strip_bom_def)
  qed
  show ?thesis
    by (simp add: utf8_decode_def run bom well_formed_units [OF wf] utf16_units_zeros)
qed

lemma replace_nul_tail_zeros: "replace_nul_tail (replicate k 0) = []"
  by (cases k) (simp_all add: list_all_length is_line_terminator_def)

lemma replace_nul_tail_padded:
  "0 \<notin> set s \<Longrightarrow> replace_nul_tail (s @ replicate k 0) = s"
  by (induction s) (auto simp: replace_nul_tail_zeros)

lemma length_trim_le: "length (trim s) \<le> length (dropWhile is_white_space s)"
proof -
  have "length (trim s) = length (dropWhile is_white_space (rev (dropWhile is_white_space s)))"
    by (simp add: trim_def)
  also have "\<dots> \<le> length (rev (dropWhile is_white_space s))" by (rule length_dropWhile_le)
  finally show ?thesis by simp
qed

lemma trim_fixed_hd:
  assumes "trim s = s"
  shows "s = [] \<or> hd s \<noteq> 0xFEFF"
proof (cases s)
  case Nil
  then show ?thesis by simp
next
  case (Cons u rest)
  show ?thesis
  proof (rule ccontr)
    assume "\<not> (s = [] \<or> hd s \<noteq> 0xFEFF)"
    with Cons have "u = 0xFEFF" by simp
    then have "is_white_space u" by (simp add: is_white_space_def)
    with Cons have "length (dropWhile is_white_space s) \<le> length rest"
      by (simp add: length_dropWhile_le)
    with length_trim_le [of s] have "length (trim s) < length s" using Cons by simp
    with assms show False by simp
  qed
qed

lemma cleanString_field:
  assumes "field_safe n s"
  shows "cleanString (utf8_encode s @ replicate k 0) = s"
proof -
  from assms have wf: "well_formed s" and nz: "0 \<notin> set s" and tr: "trim s = s"
    by (simp_all add: field_safe_def)
  from tr have "s = [] \<or> hd s \<noteq> 0xFEFF" by (rule trim_fixed_hd)
  with wf have "utf8_decode (utf8_encode s @ replicate k 0) = s @ replicate k 0"
    by (rule utf8_decode_padded)
  then show ?thesis by (simp add: cleanString_def replace_nul_tail_padded [OF nz] tr)
qed

lemma read_record_bytes:
  assumes pno: "PLAYER_NAME_OFFSET cfg = 0"
    and fit: "COMMENTARY_NAME_LENGTH cfg + PLAYER_NAME_LENGTH cfg \<le> RECORD_SIZE cfg"
    and key: "field_safe (COMMENTARY_NAME_LENGTH cfg) (commentaryName r)"
    and name: "field_safe (PLAYER_NAME_LENGTH cfg) (playerName r)"
    and pre: "length pre = p"
  shows "read_record cfg (pre @ record_bytes cfg r @ post) p = r"
proof -
  let ?K = "COMMENTARY_NAME_LENGTH cfg"
  let ?N = "PLAYER_NAME_LENGTH cfg"
  let ?R = "RECORD_SIZE cfg"
  let ?kb = "utf8_encode (commentaryName r)"
  let ?nb = "utf8_encode (playerName r)"
  from key have kl: "length ?kb \<le> ?K" by (simp add: field_safe_def)
  from name have nl: "length ?nb \<le> ?N" by (simp add: field_safe_def)
  have rb: "record_bytes cfg r =
      (?kb @ replicate (?K - length ?kb) 0) @ (?nb @ replicate (?N - length ?nb) 0) @
      replicate (?R - ?K - ?N) 0"
    using kl nl fit pno by (simp add: record_bytes_def Let_def replicate_add [symmetric])
  have l1: "length (?kb @ replicate (?K - length ?kb) 0) = ?K" using kl by simp
  have l2: "length (?nb @ replicate (?N - length ?nb) 0) = ?N" using nl by simp
  have s1: "slice (pre @ record_bytes cfg r @ post) p (p + ?K) = ?kb @ replicate (?K - length ?kb) 0"
    unfolding rb slice_def using pre l1 by simp
  have s2: "slice (pre @ record_bytes cfg r @ post) (p + ?K) (p + ?K + ?N)
      = ?nb @ replicate (?N - length ?nb) 0"
    unfolding rb slice_def using pre l1 l2 by simp
  have "readString (pre @ record_bytes cfg r @ post) p ?K = commentaryName r"
    unfolding readString_def s1 using key by (rule cleanString_field)
  moreover have "readString (pre @ record_bytes cfg r @ post) (p + ?K) ?N = playerName r"
    unfolding readString_def s2 using name by (rule cleanString_field)
  ultimately show ?thesis by (simp add: read_record_def pno)
qed

lemma parse_loop_records:
  assumes pno: "PLAYER_NAME_OFFSET cfg = 0"
    and fit: "COMMENTARY_NAME_LENGTH cfg + PLAYER_NAME_LENGTH cfg \<le> RECORD_SIZE cfg"
    and pos: "0 < RECORD_SIZE cfg"
  shows "list_all (\<lambda>r. field_safe (COMMENTARY_NAME_LENGTH cfg) (commentaryName r) \<and>
                        field_safe (PLAYER_NAME_LENGTH cfg) (playerName r)) rs \<Longrightarrow>
         length pre = p \<Longrightarrow>
         parse_loop cfg (pre @ concat (map (record_bytes cfg) rs)) p players =
           Some (players @ rs)"
proof (induction rs arbitrary: pre p players)
  case Nil
  then show ?case using pos by (subst parse_loop.simps) simp
next
  case (Cons r rs)
  have fit': "COMMENTARY_NAME_LENGTH cfg + PLAYER_NAME_OFFSET cfg + PLAYER_NAME_LENGTH cfg
      \<le> RECORD_SIZE cfg" using fit pno by simp
  have lr: "length (record_bytes cfg r) = RECORD_SIZE cfg"
    using fit' by (rule length_record_bytes)
  from Cons.prems have safe: "field_safe (COMMENTARY_NAME_LENGTH cfg) (commentaryName r)"
    "field_safe (PLAYER_NAME_LENGTH cfg) (playerName r)" by simp_all
  have rd: "read_record cfg (pre @ record_bytes cfg r @ concat (map (record_bytes cfg) rs)) p = r"
    using pno fit safe Cons.prems(2) by (rule read_record_bytes)
  have l: "length (pre @ record_bytes cfg r) = p + RECORD_SIZE cfg"
    using Cons.prems(2) lr by simp
  from Cons.prems(1) have rest: "list_all (\<lambda>r. field_safe (COMMENTARY_NAME_LENGTH cfg) (commentaryName r) \<and>
                        field_safe (PLAYER_NAME_LENGTH cfg) (playerName r)) rs" by simp
  have ih: "parse_loop cfg ((pre @ record_bytes cfg r) @ concat (map (record_bytes cfg) rs))
              (p + RECORD_SIZE cfg) (players @ [r]) = Some ((players @ [r]) @ rs)"
    using rest l by (rule Cons.IH)
  have le: "p + RECORD_SIZE cfg
      \<le> length (pre @ record_bytes cfg r @ concat (map (record_bytes cfg) rs))"
    using Cons.prems(2) lr by simp
  show ?case
    using ih le rd by (subst parse_loop.simps) simp
qed

lemma read_record_fields:
  assumes "length pre = p" and "length kf = COMMENTARY_NAME_LENGTH cfg"
    and "length gap = PLAYER_NAME_OFFSET cfg" and "length nf = PLAYER_NAME_LENGTH cfg"
  shows "read_record cfg (pre @ kf @ gap @ nf @ post) p =
           \<lparr>commentaryName = cleanString kf, playerName = cleanString nf\<rparr>"
  using assms by (simp add: read_record_def readString_def slice_def)

section \<open>The header and the loop of \<open>parse\<close>\<close>

lemma parse_loop_returns:
  assumes "0 < RECORD_SIZE cfg"
  shows "(length buf - p) div RECORD_SIZE cfg = n \<Longrightarrow>
         parse_loop cfg buf p players =
           Some (players @ map (\<lambda>i. read_record cfg buf (p + i * RECORD_SIZE cfg)) [0..<n])"
proof (induction n arbitrary: p players)
  case 0
  then have "length buf - p < RECORD_SIZE cfg"
    using assms by (simp add: div_eq_0_iff)
  then have "\<not> p + RECORD_SIZE cfg \<le> length buf" by arith
  then show ?case by (subst parse_loop.simps) simp
next
  case (Suc n)
  have ge: "RECORD_SIZE cfg \<le> length buf - p"
  proof (rule ccontr)
    assume "\<not> RECORD_SIZE cfg \<le> length buf - p"
    then have "(length buf - p) div RECORD_SIZE cfg = 0" by simp
    with Suc.prems show False by simp
  qed
  then have fits: "p + RECORD_SIZE cfg \<le> length buf" using assms by arith
  have "(length buf - p) div RECORD_SIZE cfg
          = Suc ((length buf - p - RECORD_SIZE cfg) div RECORD_SIZE cfg)"
    using assms ge by (rule le_div_geq)
  with Suc.prems have "(length buf - (p + RECORD_SIZE cfg)) div RECORD_SIZE cfg = n"
    by (simp add: diff_diff_left)
  from Suc.IH [OF this, of "players @ [read_record cfg buf p]"]
  have "parse_loop cfg buf p players =
          Some ((players @ [read_record cfg buf p]) @
                map (\<lambda>i. read_record cfg buf (p + RECORD_SIZE cfg + i * RECORD_SIZE cfg)) [0..<n])"
    using fits by (subst parse_loop.simps) simp
  moreover have "map (\<lambda>i. read_record cfg buf (p + i * RECORD_SIZE cfg)) [0..<Suc n] =
      read_record cfg buf p #
      map (\<lambda>i. read_record cfg buf (p + RECORD_SIZE cfg + i * RECORD_SIZE cfg)) [0..<n]"
    by (simp add: map_upt_Suc add.assoc del: upt_Suc)
  ultimately show ?case by simp
qed

lemma take4_iff:
  "(nth_opt buffer 0 = Some a \<and> nth_opt buffer 1 = Some b \<and> nth_opt buffer 2 = Some c \<and>
    nth_opt buffer 3 = Some d) \<longleftrightarrow> take 4 buffer = [a, b, c, d]"
proof (cases buffer)
  case Nil
  then show ?thesis by (simp add: nth_opt_def)
next
  case c1: (Cons w r1)
  show ?thesis
  proof (cases r1)
    case Nil
    with c1 show ?thesis by (simp add: nth_opt_def)
  next
    case c2: (Cons x r2)
    show ?thesis
    proof (cases r2)
      case Nil
      with c1 c2 show ?thesis by (simp add: nth_opt_def)
    next
      case c3: (Cons y r3)
      show ?thesis
      proof (cases r3)
        case Nil
        with c1 c2 c3 show ?thesis by (simp add: nth_opt_def)
      next
        case (Cons z r4)
        with c1 c2 c3 show ?thesis by (simp add: nth_opt_def)
      qed
    qed
  qed
qed

lemma slice_all_zero:
  "list_all (\<lambda>byte. byte = 0) (slice buffer s e) \<longleftrightarrow>
   (\<forall>i. s \<le> i \<and> i < e \<and> i < length buffer \<longrightarrow> buffer ! i = (0 :: byte))"
proof
  assume a: "list_all (\<lambda>byte. byte = 0) (slice buffer s e)"
  show "\<forall>i. s \<le> i \<and> i < e \<and> i < length buffer \<longrightarrow> buffer ! i = 0"
  proof (intro allI impI)
    fix i assume i: "s \<le> i \<and> i < e \<and> i < length buffer"
    then have "i - s < length (slice buffer s e)" by (auto simp: slice_def)
    with a have "slice buffer s e ! (i - s) = 0" by (simp add: list_all_length)
    moreover from i have "i - s < e - s" and "s + (i - s) = i" by arith+
    ultimately show "buffer ! i = 0" using i by (simp add: slice_def)
  qed
next
  assume a: "\<forall>i. s \<le> i \<and> i < e \<and> i < length buffer \<longrightarrow> buffer ! i = 0"
  show "list_all (\<lambda>byte. byte = 0) (slice buffer s e)"
    unfolding list_all_length
  proof (intro allI impI)
    fix j assume "j < length (slice buffer s e)"
    then have j: "j < e - s" "j < length buffer - s" by (simp_all add: slice_def)
    then have "s \<le> s + j \<and> s + j < e \<and> s + j < length buffer" by arith
    with a have "buffer ! (s + j) = 0" by blast
    moreover from j have "s \<le> length buffer" by arith
    ultimately show "slice buffer s e ! j = 0" using j
      by (simp add: slice_def)
  qed
qed

lemma isBinaryValid_iff:
  "isBinaryValid buffer \<longleftrightarrow>
     take 4 buffer = [83, 69, 80, 68] \<and>
     (\<forall>i. 24 \<le> i \<and> i < 36 \<and> i < length buffer \<longrightarrow> buffer ! i = 0)"
  unfolding isBinaryValid_def slice_all_zero using take4_iff [of buffer 83 69 80 68] by blast

lemma isBinaryValid_take:
  "isBinaryValid buffer \<longleftrightarrow>
     take 4 buffer = [83, 69, 80, 68] \<and> list_all (\<lambda>byte. byte = 0) (slice buffer 24 36)"
  unfolding isBinaryValid_def using take4_iff [of buffer 83 69 80 68] by blast

lemma slice_exists_nonzero:
  "(\<exists>i. s \<le> i \<and> i < e \<and> i < length buffer \<and> buffer ! i \<noteq> (0::byte)) \<longleftrightarrow>
   \<not> list_all (\<lambda>byte. byte = 0) (slice buffer s e)"
  unfolding slice_all_zero by blast

lemma slice_concat_decimalToBytes:
  "i < length xs \<Longrightarrow>
   slice (concat (map decimalToBytes xs) @ post) (4 * i) (4 * i + 4) = decimalToBytes (xs ! i)"
proof (induction xs arbitrary: i)
  case Nil
  then show ?case by simp
next
  case (Cons x xs)
  show ?case
  proof (cases i)
    case 0
    then show ?thesis by (simp add: slice_def)
  next
    case (Suc j)
    with Cons.prems have "j < length xs" by simp
    from Cons.IH [OF this] show ?thesis
      using Suc by (simp add: slice_def)
  qed
qed

lemma slice_shift:
  "length pre = p \<Longrightarrow> slice (pre @ xs) (p + s) (p + e) = slice xs s e"
  by (simp add: slice_def)

lemma length_header_bytes:
  assumes "length (first meta) = 16" and "length (second meta) = 16" and "length cs = 26"
  shows "length (header_bytes meta n cs) = 144"
  using assms by (simp add: header_bytes_def)

lemma header_fields:
  assumes m1: "length (first meta) = 16" and m2: "length (second meta) = 16"
    and lc: "length cs = 26"
  shows "slice (header_bytes meta n cs @ rest) 0 16 = first meta"
    and "slice (header_bytes meta n cs @ rest) 16 20 = decimalToBytes n"
    and "slice (header_bytes meta n cs @ rest) 20 36 = second meta"
    and "slice (header_bytes meta n cs @ rest) 24 36 = drop 4 (second meta)"
    and "slice (header_bytes meta n cs @ rest) 136 140 = decimalToBytes n"
    and "slice (header_bytes meta n cs @ rest) 140 144 = decimalToBytes n"
    and "take 4 (header_bytes meta n cs @ rest) = take 4 (first meta)"
  using m1 m2 lc by (simp_all add: header_bytes_def slice_def)

lemma header_index:
  assumes m1: "length (first meta) = 16" and m2: "length (second meta) = 16"
    and lc: "length cs = 26" and i: "i < 25"
  shows "slice (header_bytes meta n cs @ rest) (36 + 4 * i) (40 + 4 * i) =
           decimalToBytes (running_sums 0 cs ! i)"
proof -
  let ?pre = "first meta @ decimalToBytes n @ second meta"
  let ?xs = "take 25 (running_sums 0 cs)"
  let ?post = "decimalToBytes n @ decimalToBytes n @ rest"
  have h: "header_bytes meta n cs @ rest = ?pre @ (concat (map decimalToBytes ?xs) @ ?post)"
    by (simp add: header_bytes_def)
  have lp: "length ?pre = 36" using m1 m2 by simp
  have li: "i < length ?xs" using lc i by simp
  have "slice (?pre @ (concat (map decimalToBytes ?xs) @ ?post)) (36 + 4 * i) (36 + (4 * i + 4))
        = slice (concat (map decimalToBytes ?xs) @ ?post) (4 * i) (4 * i + 4)"
    using lp by (rule slice_shift)
  also have "\<dots> = decimalToBytes (?xs ! i)" using li by (rule slice_concat_decimalToBytes)
  also have "?xs ! i = running_sums 0 cs ! i" using i by simp
  finally show ?thesis unfolding h by (simp add: add.commute add.left_commute)
qed

lemma length_concat_records:
  "(\<And>r. length (f r) = n) \<Longrightarrow> length (concat (map f rs)) = length rs * n"
  by (induction rs) simp_all

lemma unat_ucast_byte: "unat (ucast (w :: 32 word) :: byte) = unat w mod 256"
proof -
  have "unat (ucast w :: byte) = take_bit 8 (unat w)"
    using unsigned_ucast_eq [of w, where ?'a = nat and ?'c = 8] by simp
  then show ?thesis by (simp add: take_bit_eq_mod)
qed

lemma unat_drop_bit32: "unat (drop_bit k (w :: 32 word)) = unat w div 2 ^ k"
proof -
  have "unat (drop_bit k w) = drop_bit k (unat w)" by (rule unat_drop_bit_eq)
  then show ?thesis by (simp only: drop_bit_eq_div)
qed

lemma bytes_sum:
  fixes x :: nat
  assumes "x < 2 ^ 32"
  shows "x mod 256 + 256 * (x div 2 ^ 8 mod 256 + 256 * (x div 2 ^ 16 mod 256 + 256 * (x div 2 ^ 24 mod 256))) = x"
proof -
  define q1 where "q1 = x div 256"
  define q2 where "q2 = q1 div 256"
  define q3 where "q3 = q2 div 256"
  define r0 where "r0 = x mod 256"
  define r1 where "r1 = q1 mod 256"
  define r2 where "r2 = q2 mod 256"
  have a: "x = q1 * 256 + r0" unfolding q1_def r0_def by simp
  have b: "q1 = q2 * 256 + r1" unfolding q2_def r1_def by simp
  have c: "q2 = q3 * 256 + r2" unfolding q3_def r2_def by simp
  have d1: "x div 2 ^ 8 = q1" unfolding q1_def by simp
  have d2: "x div 2 ^ 16 = q2" unfolding q2_def q1_def by (simp add: div_mult2_eq)
  have d3: "x div 2 ^ 24 = q3" unfolding q3_def q2_def q1_def by (simp add: div_mult2_eq)
  have "q3 < 256" using assms unfolding d3 [symmetric] by (simp add: less_mult_imp_div_less)
  then have e: "q3 mod 256 = q3" by simp
  have "r0 + 256 * (r1 + 256 * (r2 + 256 * q3)) = x" using a b c by arith
  then show ?thesis unfolding d1 d2 d3 e r0_def r1_def r2_def .
qed

lemma le_u32_decimalToBytes: "le_u32 (decimalToBytes n) = n mod 2 ^ 32"
proof -
  let ?w = "word_of_nat n :: 32 word"
  have u: "unat ?w = n mod 2 ^ 32" by (simp only: unat_of_nat) simp
  have lt: "n mod 2 ^ 32 < (2::nat) ^ 32" by simp
  have "le_u32 (decimalToBytes n) =
      unat ?w mod 256 + 256 * (unat ?w div 2 ^ 8 mod 256 +
        256 * (unat ?w div 2 ^ 16 mod 256 + 256 * (unat ?w div 2 ^ 24 mod 256)))"
    unfolding le_u32_def decimalToBytes_def Let_def
    by (simp only: foldr.simps comp_def id_apply unat_ucast_byte unat_drop_bit32) simp
  also have "\<dots> = n mod 2 ^ 32" unfolding u using lt by (rule bytes_sum)
  finally show ?thesis .
qed

section \<open>The alphabetical index\<close>

lemma increment_distinct:
  "distinct (map fst cs) \<Longrightarrow>
   increment k cs = map (\<lambda>(k', c). (k', if k' = k then c + 1 else c)) cs"
proof (induction cs)
  case Nil
  show ?case by simp
next
  case (Cons kc cs)
  obtain k' c where kc: "kc = (k', c)" by (cases kc)
  show ?case
  proof (cases "k = k'")
    case True
    with Cons.prems kc have "k \<notin> fst ` set cs" by simp
    then have "map (\<lambda>(k', c). (k', if k' = k then c + 1 else c)) cs = cs"
      by (intro map_idI) (auto simp: rev_image_eqI)
    with True kc show ?thesis by simp
  next
    case False
    with Cons kc show ?thesis by simp
  qed
qed

lemma count_player_distinct:
  assumes "distinct (map fst cs)"
  shows "count_player pf p cs =
           map (\<lambda>(k, c). (k, if k = first_letter pf p then c + 1 else c)) cs"
proof (cases "map_of cs (first_letter pf p) = None")
  case True
  then have "first_letter pf p \<notin> fst ` set cs" by (simp add: map_of_eq_None_iff)
  then have "map (\<lambda>(k, c). (k, if k = first_letter pf p then c + 1 else c)) cs = cs"
    by (intro map_idI) (auto simp: rev_image_eqI)
  with True show ?thesis by (simp add: count_player_def first_letter_def Let_def)
next
  case False
  with increment_distinct [OF assms, of "first_letter pf p"] show ?thesis
    by (simp add: count_player_def first_letter_def Let_def)
qed

lemma fold_count_player:
  "distinct (map fst cs) \<Longrightarrow>
   fold (count_player pf) ps cs =
     map (\<lambda>(k, c). (k, c + length (filter (\<lambda>p. first_letter pf p = k) ps))) cs"
proof (induction ps arbitrary: cs)
  case Nil
  show ?case by simp
next
  case (Cons p ps)
  let ?cs' = "map (\<lambda>(k, c). (k, if k = first_letter pf p then c + 1 else c)) cs"
  have fst': "map fst ?cs' = map fst cs" by (simp add: comp_def case_prod_beta)
  have d: "distinct (map fst ?cs')" unfolding fst' by (rule Cons.prems)
  have "fold (count_player pf) (p # ps) cs = fold (count_player pf) ps ?cs'"
    by (simp add: count_player_distinct [OF Cons.prems])
  also have "\<dots> = map (\<lambda>(k, c). (k, c + length (filter (\<lambda>p. first_letter pf p = k) ps))) ?cs'"
    using d by (rule Cons.IH)
  also have "\<dots> =
      map (\<lambda>(k, c). (k, c + length (filter (\<lambda>p. first_letter pf p = k) (p # ps)))) cs"
    by (auto simp: case_prod_beta)
  finally show ?case .
qed

lemma letter_inj: "i < 26 \<Longrightarrow> j < 26 \<Longrightarrow> letter i = letter j \<Longrightarrow> i = j"
proof -
  assume i: "i < 26" and j: "j < 26" and e: "letter i = letter j"
  then have "unat (word_of_nat (65 + i) :: 16 word) = unat (word_of_nat (65 + j) :: 16 word)"
    by (simp add: letter_def fromCharCode_def del: of_nat_add)
  moreover have "unat (word_of_nat (65 + i) :: 16 word) = 65 + i"
    using i by (simp only: unat_of_nat) simp
  moreover have "unat (word_of_nat (65 + j) :: 16 word) = 65 + j"
    using j by (simp only: unat_of_nat) simp
  ultimately show "i = j" by simp
qed

lemma letters_distinct: "distinct (map letter [0..<26])"
  by (simp only: distinct_map distinct_upt) (auto simp: inj_on_def intro: letter_inj)

lemma filter_length_mset:
  "mset xs = mset ys \<Longrightarrow> length (filter P xs) = length (filter P ys)"
  by (metis mset_filter size_mset)

lemma counts_per_letter:
  "map snd (snd (sortAndCountPlayers pf players)) = map (letter_count pf players) [0..<26]"
proof -
  let ?sorted = "array_sort (\<lambda>a b. localeCompare pf (playerName a) (playerName b)) players"
  let ?c0 = "map (\<lambda>i. (letter i, 0::nat)) [0..<26]"
  have d: "distinct (map fst ?c0)"
    using letters_distinct by (simp add: comp_def)
  have "snd (sortAndCountPlayers pf players) = fold (count_player pf) ?sorted ?c0"
    by (simp add: sortAndCountPlayers_def Let_def letter_def)
  also have "\<dots> =
      map (\<lambda>(k, c). (k, c + length (filter (\<lambda>p. first_letter pf p = k) ?sorted))) ?c0"
    using d by (rule fold_count_player)
  finally have "map snd (snd (sortAndCountPlayers pf players)) =
      map (\<lambda>i. length (filter (\<lambda>p. first_letter pf p = letter i) ?sorted)) [0..<26]"
    by (simp add: comp_def)
  moreover have "\<And>i. length (filter (\<lambda>p. first_letter pf p = letter i) ?sorted) =
      letter_count pf players i"
    unfolding letter_count_def by (rule filter_length_mset) (rule array_sort_mset)
  ultimately show ?thesis by simp
qed

lemma running_sums_nth:
  "i < length cs \<Longrightarrow> running_sums 0 cs ! i = sum_list (take (Suc i) cs)"
  by (simp add: running_sums_def)

lemma running_sums_cumulative:
  assumes "i < 26"
  shows "running_sums 0 (map (letter_count pf players) [0..<26]) ! i =
           cumulative_count pf players i"
proof -
  have "take (Suc i) (map (letter_count pf players) [0..<26]) =
        map (letter_count pf players) [0..<Suc i]"
    using assms by (simp only: take_map take_upt) (simp add: min_def)
  then show ?thesis
    using assms by (simp add: running_sums_nth cumulative_count_def del: upt_Suc)
qed

lemma cumulative_mono:
  assumes "i \<le> j"
  shows "cumulative_count pf players i \<le> cumulative_count pf players j"
proof -
  from assms have "[0..<Suc j] = [0..<Suc i] @ [Suc i..<Suc j]"
    by (metis Suc_le_mono le0 le_Suc_ex upt_add_eq_append)
  then show ?thesis by (simp add: cumulative_count_def del: upt_Suc)
qed

lemma sum_indicator_distinct:
  "distinct ks \<Longrightarrow>
   sum_list (map (\<lambda>k. if x = k then 1 else 0) ks) = (if x \<in> set ks then 1 else (0::nat))"
  by (induction ks) auto

lemma sum_filter_counts:
  "distinct ks \<Longrightarrow>
   sum_list (map (\<lambda>k. length (filter (\<lambda>p. f p = k) ps)) ks)
     = length (filter (\<lambda>p. f p \<in> set ks) ps)"
proof (induction ps)
  case Nil
  show ?case by simp
next
  case (Cons p ps)
  have "sum_list (map (\<lambda>k. length (filter (\<lambda>p. f p = k) (p # ps))) ks) =
        sum_list (map (\<lambda>k. (if f p = k then 1 else 0) + length (filter (\<lambda>p. f p = k) ps)) ks)"
    by (intro arg_cong [where f = sum_list] map_cong) auto
  also have "\<dots> = sum_list (map (\<lambda>k. if f p = k then 1 else 0) ks) +
                   sum_list (map (\<lambda>k. length (filter (\<lambda>p. f p = k) ps)) ks)"
    by (rule sum_list_addf)
  also have "\<dots> = (if f p \<in> set ks then 1 else 0) + length (filter (\<lambda>p. f p \<in> set ks) ps)"
    using Cons by (simp add: sum_indicator_distinct)
  finally show ?case by simp
qed

lemma cumulative_total:
  "cumulative_count pf players 25 = length (filter (starts_with_letter pf) players)"
proof -
  have "cumulative_count pf players 25 =
      sum_list (map (\<lambda>k. length (filter (\<lambda>p. first_letter pf p = k) players))
                  (map letter [0..<26]))"
    by (simp add: cumulative_count_def letter_count_def [abs_def] comp_def del: upt_Suc)
  also have "\<dots> = length (filter (\<lambda>p. first_letter pf p \<in> set (map letter [0..<26])) players)"
    using letters_distinct by (rule sum_filter_counts)
  finally show ?thesis by (simp add: starts_with_letter_def [abs_def] del: upt_Suc)
qed

lemma write_index_any:
  assumes "p + 4 * length cs \<le> length buf"
  shows "write_index cs start p buf =
           Inr (take p buf @ concat (map decimalToBytes (running_sums start cs)) @
                drop (p + 4 * length cs) buf)"
proof -
  have "buf = take p buf @ take (4 * length cs) (drop p buf) @ drop (p + 4 * length cs) buf"
    by (metis append_take_drop_id drop_drop add.commute)
  moreover have "write_index cs start p
      (take p buf @ take (4 * length cs) (drop p buf) @ drop (p + 4 * length cs) buf) =
      Inr (take p buf @ concat (map decimalToBytes (running_sums start cs)) @
           drop (p + 4 * length cs) buf)"
    using assms by (intro write_index_segment) simp_all
  ultimately show ?thesis by simp
qed

lemma index_slot:
  assumes "length pre = p" and "i < length xs"
  shows "slice (pre @ concat (map decimalToBytes xs) @ post) (p + 4 * i) (p + 4 * i + 4)
           = decimalToBytes (xs ! i)"
proof -
  have "slice (pre @ (concat (map decimalToBytes xs) @ post)) (p + 4 * i) (p + (4 * i + 4))
        = slice (concat (map decimalToBytes xs) @ post) (4 * i) (4 * i + 4)"
    using assms(1) by (rule slice_shift)
  also have "\<dots> = decimalToBytes (xs ! i)" using assms(2) by (rule slice_concat_decimalToBytes)
  finally show ?thesis by (simp add: add.assoc)
qed

lemma index_values:
  assumes "140 \<le> length intBuffer"
  shows "\<exists>b. write_index (map snd (snd (sortAndCountPlayers pf players))) 0 36 intBuffer = Inr b \<and>
             length b = length intBuffer \<and>
             (\<forall>i<26. slice b (36 + 4 * i) (40 + 4 * i) =
                        decimalToBytes (cumulative_count pf players i))"
proof -
  let ?cs = "map (letter_count pf players) [0..<26]"
  let ?b = "take 36 intBuffer @ concat (map decimalToBytes (running_sums 0 ?cs)) @
            drop (36 + 4 * length ?cs) intBuffer"
  have w: "write_index ?cs 0 36 intBuffer = Inr ?b"
    using assms by (intro write_index_any) simp
  have l36: "length (take 36 intBuffer) = 36" using assms by simp
  have slot: "slice ?b (36 + 4 * i) (40 + 4 * i) = decimalToBytes (cumulative_count pf players i)"
    if "i < 26" for i
  proof -
    have "slice ?b (36 + 4 * i) (36 + 4 * i + 4) = decimalToBytes (running_sums 0 ?cs ! i)"
      using l36 that by (intro index_slot) simp_all
    then show ?thesis using that by (simp add: running_sums_cumulative add.commute add.left_commute)
  qed
  have "length ?b = length intBuffer" using assms by simp
  with w slot show ?thesis unfolding counts_per_letter by blast
qed

section \<open>The store\<close>

lemma same_below_refl: "k \<le> fresh h \<Longrightarrow> same_below k h h"
  by (simp add: same_below_def)

lemma same_below_trans: "same_below k h h' \<Longrightarrow> same_below k h' h'' \<Longrightarrow> same_below k h h''"
  by (simp add: same_below_def)

lemma modify_bytes_same:
  "k \<le> r \<Longrightarrow> k \<le> fresh h \<Longrightarrow> same_below k h (snd (modify_bytes r f h))"
  by (auto simp: modify_bytes_def same_below_def split: sum.splits)

lemma then_h_same:
  assumes "same_below k h (snd m)"
    and "\<And>h'. same_below k h h' \<Longrightarrow> same_below k h (snd (f h'))"
  shows "same_below k h (snd (then_h m f))"
proof (cases m)
  case (Pair r h')
  with assms show ?thesis by (cases r) (simp_all add: then_h_def)
qed

lemma sortAndCountPlayers_h_same:
  assumes "same_below k h h'"
  shows "same_below k h (snd (sortAndCountPlayers_h pf r h'))"
  using assms
  by (auto simp: sortAndCountPlayers_h_def copy_array_def sort_in_place_def same_below_def Let_def)

lemma sortAndCountPlayers_h_sorted:
  "fresh h \<le> fst (fst (sortAndCountPlayers_h pf r h))"
  by (simp add: sortAndCountPlayers_h_def copy_array_def Let_def)

lemma step_same:
  assumes "same_below k h h'" and "k \<le> r"
  shows "same_below k h (snd (modify_bytes r f h'))"
proof -
  from assms have "k \<le> fresh h'" by (simp add: same_below_def)
  with assms(2) have "same_below k h' (snd (modify_bytes r f h'))" by (rule modify_bytes_same)
  with assms(1) show ?thesis by (rule same_below_trans)
qed

lemma save_h_same: "same_below (fresh h) h (snd (save_h pf this h))"
proof -
  let ?k = "fresh h"
  obtain intBuffer h1 where nb: "new_bytes (replicate (COMMENTARY_START_OFFSET (obj_config this) +
      length (record_arrays h (list_ref this)) * RECORD_SIZE (obj_config this)) 0) h = (intBuffer, h1)"
    by (cases "new_bytes (replicate (COMMENTARY_START_OFFSET (obj_config this) +
      length (record_arrays h (list_ref this)) * RECORD_SIZE (obj_config this)) 0) h")
  then have ib: "?k \<le> intBuffer" and s1: "same_below ?k h h1"
    by (auto simp: new_bytes_def same_below_def)
  show ?thesis
    unfolding save_h_def Let_def nb prod.case
    apply (rule then_h_same)
     apply (rule step_same [OF s1 ib])
    apply (rule then_h_same)
     apply (erule step_same [OF _ ib])
    apply (rule then_h_same)
     apply (erule step_same [OF _ ib])
    apply (simp only: split_beta)
    apply (rule then_h_same)
     apply (rule step_same [OF _ ib])
     apply (erule sortAndCountPlayers_h_same)
    apply (rule then_h_same)
     apply (erule step_same [OF _ ib])
    apply (rule then_h_same)
     apply (erule step_same [OF _ ib])
    apply simp
    done
qed

lemma then_modify:
  "then_h (modify_bytes r f h) g =
     (case f (byte_arrays h r) of
        Inl e \<Rightarrow> (Inl e, h)
      | Inr b \<Rightarrow> g (h\<lparr>byte_arrays := (byte_arrays h)(r := b)\<rparr>))"
  by (simp add: then_h_def modify_bytes_def split: sum.splits)

lemma save_h_refines:
  assumes "first_ref this < fresh h" and "second_ref this < fresh h" and "list_ref this < fresh h"
  shows "fst (save_h pf this h) = map_sum id (\<lambda>b. fresh h) (save pf (parser_of this h)) \<and>
         (\<forall>b. save pf (parser_of this h) = Inr b \<longrightarrow>
              byte_arrays (snd (save_h pf this h)) (fresh h) = b)"
  using assms
  by (simp add: save_h_def save_def parser_of_def Let_def new_bytes_def then_modify
        sortAndCountPlayers_h_def sortAndCountPlayers_def copy_array_def sort_in_place_def
        write_header_def write_totals_def bindE_def
      split: sum.splits)

section \<open>Evaluating the examples\<close>

lemmas decode_eval =
  cleanString_def cleanString_spec_def utf8_decode_def utf8_init_def utf8_step_def
  utf8_lead_def strip_bom_def utf16_units_def trim_def is_white_space_def
  is_line_terminator_def

lemmas string_eval =
  js_def ascii_def trim_def is_white_space_def is_line_terminator_def utf8_encode_def
  utf8_bytes_def is_high_surrogate_def is_low_surrogate_def

lemma first_letter_Ana:
  "first_letter example_platform \<lparr>commentaryName = k, playerName = js ''Ana''\<rparr> = letter 0"
  by (simp add: first_letter_def example_platform_def charAt0_def ascii_upper_def js_def
      letter_def fromCharCode_def)

lemma first_letter_Bob:
  "first_letter example_platform \<lparr>commentaryName = k, playerName = js ''Bob''\<rparr> = letter 1"
  by (simp add: first_letter_def example_platform_def charAt0_def ascii_upper_def js_def
      letter_def fromCharCode_def)

lemma letter_neq: "i < 26 \<Longrightarrow> j < 26 \<Longrightarrow> i \<noteq> j \<Longrightarrow> letter i \<noteq> letter j"
  using letter_inj by blast

lemma letter_0_1:
  "letter 0 \<noteq> letter 1" "letter 1 \<noteq> letter 0"
  "letter 0 \<noteq> letter (Suc 0)" "letter (Suc 0) \<noteq> letter 0"
  by (simp_all add: letter_def fromCharCode_def)

lemma example_players:
  "playerList example_parser =
     [\<lparr>commentaryName = js ''EN_A1_P0_R000001'', playerName = js ''Ana''\<rparr>,
      \<lparr>commentaryName = js ''EN_A1_P0_R000002'', playerName = js ''Bob''\<rparr>]"
  by (simp add: example_parser_def)

lemma cfg_2017:
  "pesConfig example_parser_2017 = PES2017Config"
  "COMMENTARY_START_OFFSET PES2017Config = 144" "PLAYER_NAME_OFFSET PES2017Config = 0"
  "COMMENTARY_NAME_LENGTH PES2017Config = 16" "PLAYER_NAME_LENGTH PES2017Config = 64"
  "RECORD_SIZE PES2017Config = 80"
  by (simp_all add: example_parser_2017_def PES2017Config_def)

lemma safe_2017:
  "field_safe 16 (js ''E_A1_P0_R000001'')" "field_safe 16 (js ''E_A1_P0_R000002'')"
  "field_safe 64 (js ''Ana'')" "field_safe 64 (js ''Bob'')"
  by (simp_all add: field_safe_def string_eval)

lemma enc_ascii:
  "utf8_encode (js ''EN_A1_P0_R000001'') = ascii ''EN_A1_P0_R000001''"
  "utf8_encode (js ''EN_A1_P0_R000002'') = ascii ''EN_A1_P0_R000002''"
  "utf8_encode (js ''Ana'') = ascii ''Ana''" "utf8_encode (js ''Bob'') = ascii ''Bob''"
  by (simp_all add: string_eval)

lemma safe_2021:
  "field_safe 16 (js ''EN_A1_P0_R000001'')" "field_safe 16 (js ''EN_A1_P0_R000002'')"
  by (simp_all add: field_safe_def string_eval)

lemma clean_examples:
  "cleanString (ascii ''EN_A1_P0_R000001'') = js ''EN_A1_P0_R000001''"
  "cleanString (ascii ''EN_A1_P0_R000002'') = js ''EN_A1_P0_R000002''"
  "cleanString (ascii ''Ana'' @ replicate 61 0) = js ''Ana''"
  "cleanString (ascii ''Bob'' @ replicate 61 0) = js ''Bob''"
  using cleanString_field [OF safe_2021(1), of 0] cleanString_field [OF safe_2021(2), of 0]
    cleanString_field [OF safe_2017(3), of 61] cleanString_field [OF safe_2017(4), of 61]
  by (simp_all add: enc_ascii)

lemma clean_zeros: "cleanString (replicate k 0) = []"
  using cleanString_field [of 0 "[]" k] by (simp add: field_safe_def string_eval)

lemma not_letter: "\<not> starts_with_letter example_platform \<lparr>commentaryName = k, playerName = js ''1''\<rparr>"
proof -
  have ne: "letter i \<noteq> js ''1''" if "i < 26" for i
  proof
    assume "letter i = js ''1''"
    then have "unat (word_of_nat (65 + i) :: 16 word) = unat (49 :: 16 word)"
      by (simp add: letter_def fromCharCode_def js_def del: of_nat_add)
    moreover have "unat (word_of_nat (65 + i) :: 16 word) = 65 + i"
      using that by (simp only: unat_of_nat) simp
    ultimately show False by simp
  qed
  have out: "js ''1'' \<notin> letter ` {0..<26}"
  proof
    assume "js ''1'' \<in> letter ` {0..<26}"
    then obtain i where "i < 26" and "letter i = js ''1''" by auto
    with ne show False by blast
  qed
  have fl: "first_letter example_platform \<lparr>commentaryName = k, playerName = js ''1''\<rparr> = js ''1''"
    by (simp add: first_letter_def example_platform_def charAt0_def ascii_upper_def js_def)
  show ?thesis unfolding starts_with_letter_def fl by (rule out)
qed

section \<open>Claims about the editing methods\<close>

lemma example_keys:
  "commentaryName ` set (playerList example_parser) =
     {js ''EN_A1_P0_R000001'', js ''EN_A1_P0_R000002''}"
  by (simp add: example_parser_def)

lemma example_prefix: "COMMENTARY_PREFIX (pesConfig example_parser) = js ''EN_A1_P0_R''"
  by (simp add: example_parser_def PES2021Config_def)

text \<open>
  C7. \<open>updatePlayer\<close> and \<open>deletePlayer\<close> called with a key that no record has both fail
  with \<open>NotFound\<close> and leave the instance, so its list of records, as it was. This holds
  for the methods of \<open>src/parser.ts\<close>, which take the key, and for those of the build
  under \<open>dist/\<close>, which derive the key from a numeric id.
\<close>

theorem absent_key_NotFound_unchanged:
  assumes "name \<notin> commentaryName ` set (playerList this)"
  shows "updatePlayer_ts this name newName = (Inl NotFound, this) \<and>
         deletePlayer_ts this name = (Inl NotFound, this) \<and>
         (buildCommentaryName this (commentaryId data) = name \<longrightarrow>
            updatePlayer this data = (Inl NotFound, this)) \<and>
         (buildCommentaryName this cid = name \<longrightarrow>
            deletePlayer this cid = (Inl NotFound, this))"
  using assms
  by (simp add: updatePlayer_ts_def deletePlayer_ts_def updatePlayer_def deletePlayer_def
      update_by_name_eq delete_by_name_eq)

theorem absent_key_NotFound_unchanged_witness:
  "updatePlayer_ts example_parser (js ''EN_A1_P0_R000003'') (js ''Cy'') =
     (Inl NotFound, example_parser) \<and>
   deletePlayer_ts example_parser (js ''EN_A1_P0_R000003'') = (Inl NotFound, example_parser) \<and>
   updatePlayer example_parser \<lparr>commentaryId = 3, upsertName = js ''Cy''\<rparr> =
     (Inl NotFound, example_parser) \<and>
   deletePlayer example_parser 3 = (Inl NotFound, example_parser)"
proof -
  have absent: "js ''EN_A1_P0_R000003'' \<notin> commentaryName ` set (playerList example_parser)"
    by (simp add: example_keys) (simp add: js_def)
  have key: "buildCommentaryName example_parser 3 = js ''EN_A1_P0_R000003''"
    by (simp add: buildCommentaryName_def formatTo6String_nat zero_padded_6 example_prefix)
       (simp add: js_def)
  from absent_key_NotFound_unchanged
         [OF absent, of "js ''Cy''" "\<lparr>commentaryId = 3, upsertName = js ''Cy''\<rparr>" 3] key
  show ?thesis by simp
qed

text \<open>
  C10. \<open>updatePlayer\<close> does not look at the new display name. When a record has the key,
  the call succeeds for every string, the empty one included, and the first such record
  gets the string as it is; the call throws (\<open>NotFound\<close>) exactly when no record has
  the key. Both builds behave so.
\<close>

theorem updatePlayer_no_validation:
  "updatePlayer_ts this name newName =
     (if name \<in> commentaryName ` set (playerList this)
      then (Inr (), this\<lparr>playerList := rename_first name newName (playerList this)\<rparr>)
      else (Inl NotFound, this)) \<and>
   updatePlayer this data =
     (if buildCommentaryName this (commentaryId data) \<in> commentaryName ` set (playerList this)
      then (Inr (),
            this\<lparr>playerList :=
                   rename_first (buildCommentaryName this (commentaryId data))
                     (upsertName data) (playerList this)\<rparr>)
      else (Inl NotFound, this))"
  by (simp add: updatePlayer_ts_def updatePlayer_def update_by_name_eq)

theorem updatePlayer_no_validation_witness:
  "updatePlayer_ts example_parser (js ''EN_A1_P0_R000002'') [] =
     (Inr (),
      example_parser\<lparr>playerList :=
        [\<lparr>commentaryName = js ''EN_A1_P0_R000001'', playerName = js ''Ana''\<rparr>,
         \<lparr>commentaryName = js ''EN_A1_P0_R000002'', playerName = []\<rparr>]\<rparr>) \<and>
   updatePlayer example_parser \<lparr>commentaryId = 2, upsertName = js '' ''\<rparr> =
     (Inr (),
      example_parser\<lparr>playerList :=
        [\<lparr>commentaryName = js ''EN_A1_P0_R000001'', playerName = js ''Ana''\<rparr>,
         \<lparr>commentaryName = js ''EN_A1_P0_R000002'', playerName = js '' ''\<rparr>]\<rparr>)"
proof -
  have key: "buildCommentaryName example_parser 2 = js ''EN_A1_P0_R000002''"
    by (simp add: buildCommentaryName_def formatTo6String_nat zero_padded_6 example_prefix)
       (simp add: js_def)
  have ne: "js ''EN_A1_P0_R000001'' \<noteq> js ''EN_A1_P0_R000002''"
    by (simp add: js_def)
  have pl: "playerList example_parser =
        [\<lparr>commentaryName = js ''EN_A1_P0_R000001'', playerName = js ''Ana''\<rparr>,
         \<lparr>commentaryName = js ''EN_A1_P0_R000002'', playerName = js ''Bob''\<rparr>]"
    by (simp add: example_parser_def)
  from updatePlayer_no_validation
         [of example_parser "js ''EN_A1_P0_R000002''" "[]"
             "\<lparr>commentaryId = 2, upsertName = js '' ''\<rparr>"]
  show ?thesis by (simp add: key example_keys pl ne)
qed



text \<open>
  C8. For \<open>updatePlayer\<close> and \<open>deletePlayer\<close> of the build under \<open>dist/\<close> the key looked up
  is the layout's prefix followed by the six-digit form of the id: an id of more than
  six digits is not rejected, its last six digits are taken, so the key is the prefix
  followed by \<open>id mod 1000000\<close> in six digits, zero-padded.
\<close>

theorem id_normalised_to_six_digits:
  assumes "0 \<le> cid" and "0 \<le> commentaryId data"
  shows "buildCommentaryName this cid =
           COMMENTARY_PREFIX (pesConfig this) @ zero_padded 6 (nat cid mod 1000000) \<and>
         updatePlayer this data =
           update_by_name this
             (COMMENTARY_PREFIX (pesConfig this) @
              zero_padded 6 (nat (commentaryId data) mod 1000000))
             (upsertName data) \<and>
         deletePlayer this cid =
           delete_by_name this
             (COMMENTARY_PREFIX (pesConfig this) @ zero_padded 6 (nat cid mod 1000000))"
  using assms
  by (simp add: updatePlayer_def deletePlayer_def buildCommentaryName_def formatTo6String_nat)

theorem id_normalised_to_six_digits_witness:
  "buildCommentaryName example_parser 1234567 = js ''EN_A1_P0_R234567'' \<and>
   buildCommentaryName example_parser 123 = js ''EN_A1_P0_R000123'' \<and>
   updatePlayer example_parser \<lparr>commentaryId = 1000002, upsertName = js ''Cy''\<rparr> =
     update_by_name example_parser (js ''EN_A1_P0_R000002'') (js ''Cy'') \<and>
   deletePlayer example_parser 1234567 =
     delete_by_name example_parser (js ''EN_A1_P0_R234567'')"
proof -
  have k: "js ''EN_A1_P0_R'' @ zero_padded 6 234567 = js ''EN_A1_P0_R234567''"
    "js ''EN_A1_P0_R'' @ zero_padded 6 123 = js ''EN_A1_P0_R000123''"
    "js ''EN_A1_P0_R'' @ zero_padded 6 2 = js ''EN_A1_P0_R000002''"
    by (simp_all add: zero_padded_6 js_def)
  show ?thesis
    using id_normalised_to_six_digits
            [of 1234567 "\<lparr>commentaryId = 1000002, upsertName = js ''Cy''\<rparr>" example_parser]
          id_normalised_to_six_digits
            [of 123 "\<lparr>commentaryId = 1000002, upsertName = js ''Cy''\<rparr>" example_parser]
    by (simp add: example_prefix k)
qed

section \<open>Claims about reading a file\<close>

lemma replace_nul_tail_takeWhile:
  "list_all (\<lambda>v. \<not> is_line_terminator v) (dropWhile (\<lambda>u. u \<noteq> 0) s) \<Longrightarrow>
   replace_nul_tail s = takeWhile (\<lambda>u. u \<noteq> 0) s"
  by (induction s) auto

lemma cleanString_agrees_without_line_terminator:
  "list_all (\<lambda>v. \<not> is_line_terminator v) (dropWhile (\<lambda>u. u \<noteq> 0) (utf8_decode buffer)) \<Longrightarrow>
   cleanString buffer = cleanString_spec buffer"
  by (simp add: cleanString_def cleanString_spec_def replace_nul_tail_takeWhile)

text \<open>
  C5. The claim is that \<open>cleanString\<close> returns the UTF-8 decoding cut at the first NUL and
  trimmed. The code does so when no line terminator follows that NUL (the lemma above),
  and not otherwise: the bytes \<open>41 00 0A 42\<close> decode to \<open>A\<close>, NUL, line feed, \<open>B\<close>; the pattern
  \<open>/\0.*$/\<close> finds no match, since \<open>.\<close> stops at the line feed and \<open>$\<close> is the end of the
  input, and \<open>cleanString\<close> returns all four code units, the NUL included, where the rule as
  worded gives \<open>A\<close>. On the example of the doc comment both give \<open>Messi\<close>.
\<close>

theorem cleanString_keeps_nul_before_line_feed:
  "cleanString [0x41, 0x00, 0x0A, 0x42] = [0x41, 0x00, 0x0A, 0x42] \<and>
   cleanString_spec [0x41, 0x00, 0x0A, 0x42] = [0x41] \<and>
   cleanString [77, 101, 115, 115, 105, 0, 0] = js ''Messi''"
  by (simp add: decode_eval js_def)

text \<open>
  C2. For a layout with a positive \<open>RECORD_SIZE\<close>, \<open>parse\<close> returns, and: it fails with
  \<open>TooSmall\<close> exactly when the buffer is shorter than \<open>COMMENTARY_START_OFFSET\<close>; for a buffer
  that long it fails with the invalid-file error exactly when its first four bytes are
  not \<open>SEPD\<close> or some byte at an index in \<open>[24, 36)\<close> is not zero; otherwise it succeeds with
  the metadata spans \<open>[0, 16)\<close> and \<open>[20, 36)\<close> and with exactly
  \<open>(length - COMMENTARY_START_OFFSET) div RECORD_SIZE\<close> records, one per full stride in file
  order, a trailing partial stride being left out.
\<close>

theorem parse_outcome:
  assumes "0 < RECORD_SIZE cfg"
  shows "parse buf cfg =
     (if length buf < COMMENTARY_START_OFFSET cfg then Some (Inl TooSmall)
      else if take 4 buf \<noteq> [83, 69, 80, 68] \<or>
              (\<exists>i. 24 \<le> i \<and> i < 36 \<and> i < length buf \<and> buf ! i \<noteq> 0)
        then Some (Inl InvalidFile)
      else Some (Inr \<lparr>pesConfig = cfg,
                      metadata = \<lparr>first = slice buf 0 16, second = slice buf 20 36\<rparr>,
                      playerList = records_in_file cfg buf\<rparr>)) \<and>
     length (records_in_file cfg buf) =
       (length buf - COMMENTARY_START_OFFSET cfg) div RECORD_SIZE cfg"
proof -
  have loop: "parse_loop cfg buf (COMMENTARY_START_OFFSET cfg) [] = Some (records_in_file cfg buf)"
    using parse_loop_returns [OF assms refl, of buf "COMMENTARY_START_OFFSET cfg" "[]"]
    by (simp add: records_in_file_def)
  define bad where "bad \<longleftrightarrow>
      take 4 buf \<noteq> [83, 69, 80, 68] \<or>
      (\<exists>i. 24 \<le> i \<and> i < 36 \<and> i < length buf \<and> buf ! i \<noteq> 0)"
  have valid: "isBinaryValid buf \<longleftrightarrow> \<not> bad"
    unfolding isBinaryValid_iff bad_def by blast
  have len: "length (records_in_file cfg buf) =
       (length buf - COMMENTARY_START_OFFSET cfg) div RECORD_SIZE cfg"
    by (simp add: records_in_file_def)
  have "parse buf cfg =
     (if length buf < COMMENTARY_START_OFFSET cfg then Some (Inl TooSmall)
      else if bad then Some (Inl InvalidFile)
      else Some (Inr \<lparr>pesConfig = cfg,
                      metadata = \<lparr>first = slice buf 0 16, second = slice buf 20 36\<rparr>,
                      playerList = records_in_file cfg buf\<rparr>))"
    by (simp add: parse_def loop valid)
  from this [unfolded bad_def] len show ?thesis by (rule conjI)
qed

theorem parse_outcome_witness:
  "parse (replicate 100 0) PES2021Config = Some (Inl TooSmall) \<and>
   parse (ascii ''XEPD'' @ replicate 140 0) PES2021Config = Some (Inl InvalidFile) \<and>
   parse example_file PES2021Config = Some (Inr example_parser)"
proof -
  have cfg: "COMMENTARY_START_OFFSET PES2021Config = 144" "RECORD_SIZE PES2021Config = 96"
    "COMMENTARY_NAME_LENGTH PES2021Config = 16" "PLAYER_NAME_OFFSET PES2021Config = 16"
    "PLAYER_NAME_LENGTH PES2021Config = 64"
    by (simp_all add: PES2021Config_def)
  have pos: "0 < RECORD_SIZE PES2021Config" by (simp add: cfg)
  let ?H = "ascii ''SEPD'' @ replicate 12 0 @ [2, 0, 0, 0] @ replicate 124 0"
  let ?K1 = "ascii ''EN_A1_P0_R000001''"
  let ?K2 = "ascii ''EN_A1_P0_R000002''"
  let ?G = "replicate 16 (0::byte)"
  let ?N1 = "ascii ''Ana'' @ replicate 61 0"
  let ?N2 = "ascii ''Bob'' @ replicate 61 0"
  have e1: "example_file = ?H @ ?K1 @ ?G @ ?N1 @ (?K2 @ ?G @ ?N2 @ [1, 2, 3])"
    and e2: "example_file = (?H @ ?K1 @ ?G @ ?N1) @ ?K2 @ ?G @ ?N2 @ [1, 2, 3]"
    by (simp_all add: example_file_def)
  have len: "length example_file = 339" by (simp add: example_file_def ascii_def)
  have "read_record PES2021Config (?H @ ?K1 @ ?G @ ?N1 @ (?K2 @ ?G @ ?N2 @ [1, 2, 3])) 144 =
      \<lparr>commentaryName = cleanString ?K1, playerName = cleanString ?N1\<rparr>"
    by (rule read_record_fields) (simp_all add: cfg ascii_def)
  then have r1: "read_record PES2021Config example_file 144 =
      \<lparr>commentaryName = js ''EN_A1_P0_R000001'', playerName = js ''Ana''\<rparr>"
    unfolding e1 [symmetric] clean_examples .
  have "read_record PES2021Config ((?H @ ?K1 @ ?G @ ?N1) @ ?K2 @ ?G @ ?N2 @ [1, 2, 3]) 240 =
      \<lparr>commentaryName = cleanString ?K2, playerName = cleanString ?N2\<rparr>"
    by (rule read_record_fields) (simp_all add: cfg ascii_def)
  then have r2: "read_record PES2021Config example_file 240 =
      \<lparr>commentaryName = js ''EN_A1_P0_R000002'', playerName = js ''Bob''\<rparr>"
    unfolding e2 [symmetric] clean_examples .
  have recs: "records_in_file PES2021Config example_file = playerList example_parser"
    by (simp add: records_in_file_def cfg len r1 r2 example_players upt_rec)
  have t4: "take 4 example_file = [83, 69, 80, 68]"
    by (simp add: example_file_def ascii_def)
  have z: "list_all (\<lambda>byte. byte = 0) (slice example_file 24 36)"
    by (simp add: example_file_def ascii_def slice_def list_all_iff)
  have m: "slice example_file 0 16 = first (metadata example_parser)"
    "slice example_file 20 36 = second (metadata example_parser)"
    by (simp_all add: example_file_def ascii_def slice_def example_parser_def
        replicate_add [symmetric])
  have ex: "\<lparr>pesConfig = PES2021Config,
       metadata = \<lparr>first = first (metadata example_parser),
                   second = second (metadata example_parser)\<rparr>,
       playerList = playerList example_parser\<rparr> = example_parser"
    by (simp add: example_parser_def)
  have a: "parse (replicate 100 0) PES2021Config = Some (Inl TooSmall)"
    using parse_outcome [OF pos, of "replicate 100 0"] by (simp add: cfg)
  have "take 4 (ascii ''XEPD'' @ replicate 140 (0::byte)) \<noteq> [83, 69, 80, 68]"
    by (simp add: ascii_def)
  then have b: "parse (ascii ''XEPD'' @ replicate 140 0) PES2021Config = Some (Inl InvalidFile)"
    using parse_outcome [OF pos, of "ascii ''XEPD'' @ replicate 140 0"]
    by (simp add: cfg ascii_def)
  have c: "parse example_file PES2021Config = Some (Inr example_parser)"
    using parse_outcome [OF pos, of example_file]
    unfolding slice_exists_nonzero by (simp add: cfg len t4 z m recs ex)
  from a b c show ?thesis by simp
qed

section \<open>Claims about writing a file\<close>

text \<open>
  C6. For metadata spans of 16 bytes each and a layout whose records start at 144
  or later and whose stride holds the key field, the padding and the name field, \<open>save\<close>
  returns a buffer of exactly \<open>COMMENTARY_START_OFFSET + count * RECORD_SIZE\<close> bytes, with
  \<open>metadata.first\<close> at offset 0, the record count as four little-endian bytes at offset
  16, \<open>metadata.second\<close> at offset 20, and the record count again at offsets 136 and 140.
\<close>

theorem save_buffer_layout:
  assumes m1: "length (first (metadata this)) = 16"
    and m2: "length (second (metadata this)) = 16"
    and start: "144 \<le> COMMENTARY_START_OFFSET (pesConfig this)"
    and fit: "COMMENTARY_NAME_LENGTH (pesConfig this) + PLAYER_NAME_OFFSET (pesConfig this) +
              PLAYER_NAME_LENGTH (pesConfig this) \<le> RECORD_SIZE (pesConfig this)"
  shows "\<exists>buffer. save pf this = Inr buffer \<and>
           length buffer = COMMENTARY_START_OFFSET (pesConfig this) +
                           length (playerList this) * RECORD_SIZE (pesConfig this) \<and>
           slice buffer 0 16 = first (metadata this) \<and>
           slice buffer 16 20 = decimalToBytes (length (playerList this)) \<and>
           slice buffer 20 36 = second (metadata this) \<and>
           slice buffer 136 140 = decimalToBytes (length (playerList this)) \<and>
           slice buffer 140 144 = decimalToBytes (length (playerList this)) \<and>
           le_u32 (decimalToBytes (length (playerList this))) = length (playerList this) mod 2 ^ 32"
proof -
  let ?cs = "map snd (snd (sortAndCountPlayers pf (playerList this)))"
  let ?sorted = "fst (sortAndCountPlayers pf (playerList this))"
  let ?rest = "replicate (COMMENTARY_START_OFFSET (pesConfig this) - 144) 0 @
               concat (map (record_bytes (pesConfig this)) ?sorted)"
  let ?buffer = "header_bytes (metadata this) (length (playerList this)) ?cs @ ?rest"
  have lc: "length ?cs = 26" by (simp add: length_counts)
  have s: "save pf this = Inr ?buffer"
    using m1 m2 start fit by (rule save_explicit)
  have ls: "length ?sorted = length (playerList this)"
    by (simp add: sorted_eq array_sort_length)
  have "length (concat (map (record_bytes (pesConfig this)) ?sorted)) =
        length ?sorted * RECORD_SIZE (pesConfig this)"
    by (rule length_concat_records) (rule length_record_bytes [OF fit])
  then have len: "length ?buffer = COMMENTARY_START_OFFSET (pesConfig this) +
      length (playerList this) * RECORD_SIZE (pesConfig this)"
    using start by (simp add: length_header_bytes [OF m1 m2 lc] ls)
  show ?thesis
    using s len header_fields [OF m1 m2 lc, of "length (playerList this)" ?rest]
      le_u32_decimalToBytes [of "length (playerList this)"]
    by (intro exI [of _ ?buffer]) simp
qed

theorem save_buffer_layout_witness:
  "\<exists>buffer. save example_platform example_parser = Inr buffer \<and>
     length buffer = 336 \<and>
     slice buffer 0 16 = [83, 69, 80, 68] @ replicate 12 0 \<and>
     slice buffer 16 20 = [2, 0, 0, 0] \<and>
     slice buffer 20 36 = replicate 16 0 \<and>
     slice buffer 136 140 = [2, 0, 0, 0] \<and>
     slice buffer 140 144 = [2, 0, 0, 0]"
proof -
  have md: "metadata example_parser =
      \<lparr>first = [83, 69, 80, 68] @ replicate 12 0, second = replicate 16 0\<rparr>"
    and cfg: "pesConfig example_parser = PES2021Config"
    by (simp_all add: example_parser_def)
  have d: "decimalToBytes (Suc (Suc 0)) = [2, 0, 0, 0]" by (simp add: decimalToBytes_def)
  have "length (first (metadata example_parser)) = 16"
    and "length (second (metadata example_parser)) = 16"
    and "144 \<le> COMMENTARY_START_OFFSET (pesConfig example_parser)"
    and "COMMENTARY_NAME_LENGTH (pesConfig example_parser) +
         PLAYER_NAME_OFFSET (pesConfig example_parser) +
         PLAYER_NAME_LENGTH (pesConfig example_parser) \<le> RECORD_SIZE (pesConfig example_parser)"
    by (simp_all add: md cfg PES2021Config_def)
  from save_buffer_layout [OF this, of example_platform]
  obtain buffer where "save example_platform example_parser = Inr buffer"
    and "length buffer = COMMENTARY_START_OFFSET (pesConfig example_parser) +
           length (playerList example_parser) * RECORD_SIZE (pesConfig example_parser)"
    and "slice buffer 0 16 = first (metadata example_parser)"
    and "slice buffer 16 20 = decimalToBytes (length (playerList example_parser))"
    and "slice buffer 20 36 = second (metadata example_parser)"
    and "slice buffer 136 140 = decimalToBytes (length (playerList example_parser))"
    and "slice buffer 140 144 = decimalToBytes (length (playerList example_parser))"
    by blast
  then show ?thesis
    by (intro exI [of _ buffer]) (simp add: md cfg PES2021Config_def example_players d)
qed

text \<open>
  C4, as amended. On a buffer of at least 140 bytes the 26 values that the encoder
  writes at offsets 36, 40, ..., 136 are, as little-endian 32-bit numbers, the running
  sums in the order A to Z of the counts of records whose name's first code unit,
  uppercased, is that letter. The sequence does not decrease. The sum after Z is the
  number of records whose name starts with one of the 26 letters, which is at most the
  number of records: a record whose name starts with anything else, or is empty, is in
  no count.
\<close>

theorem alphabet_index_cumulative:
  assumes "140 \<le> length intBuffer"
  shows "(\<exists>b. write_index (map snd (snd (sortAndCountPlayers pf players))) 0 36 intBuffer = Inr b \<and>
              (\<forall>i<26. slice b (36 + 4 * i) (40 + 4 * i) =
                         decimalToBytes (cumulative_count pf players i))) \<and>
         (\<forall>i j. i \<le> j \<longrightarrow> cumulative_count pf players i \<le> cumulative_count pf players j) \<and>
         cumulative_count pf players 25 = length (filter (starts_with_letter pf) players) \<and>
         cumulative_count pf players 25 \<le> length players \<and>
         (\<forall>i. le_u32 (decimalToBytes (cumulative_count pf players i)) =
                cumulative_count pf players i mod 2 ^ 32)"
proof -
  have "cumulative_count pf players 25 \<le> length players"
    unfolding cumulative_total by (rule length_filter_le)
  then show ?thesis
    using index_values [OF assms, of pf players] cumulative_mono [of _ _ pf players]
      cumulative_total [of pf players] le_u32_decimalToBytes
    by blast
qed

theorem alphabet_index_cumulative_witness:
  "\<exists>b. write_index
          (map snd (snd (sortAndCountPlayers example_platform (playerList example_parser))))
          0 36 (replicate 144 0) = Inr b \<and>
       slice b 36 40 = [1, 0, 0, 0] \<and> slice b 40 44 = [2, 0, 0, 0] \<and>
       slice b 136 140 = [2, 0, 0, 0]"
proof -
  let ?ps = "playerList example_parser"
  have len: "140 \<le> length (replicate 144 (0::byte))" by simp
  have c0: "cumulative_count example_platform ?ps 0 = 1"
    by (simp add: cumulative_count_def letter_count_def example_players first_letter_Ana
        first_letter_Bob letter_0_1)
  have c1: "cumulative_count example_platform ?ps 1 = 2"
    by (simp add: cumulative_count_def letter_count_def example_players first_letter_Ana
        first_letter_Bob letter_0_1)
  have l: "starts_with_letter example_platform \<lparr>commentaryName = k, playerName = js ''Ana''\<rparr>"
    "starts_with_letter example_platform \<lparr>commentaryName = k, playerName = js ''Bob''\<rparr>" for k
    by (simp_all add: starts_with_letter_def first_letter_Ana first_letter_Bob)
  from alphabet_index_cumulative [OF len, of example_platform ?ps]
  obtain b where w: "write_index (map snd (snd (sortAndCountPlayers example_platform ?ps)))
        0 36 (replicate 144 0) = Inr b"
    and s: "\<forall>i<26. slice b (36 + 4 * i) (40 + 4 * i) =
              decimalToBytes (cumulative_count example_platform ?ps i)"
    and t: "cumulative_count example_platform ?ps 25 =
              length (filter (starts_with_letter example_platform) ?ps)"
    by blast
  from t have c25: "cumulative_count example_platform ?ps 25 = 2"
    by (simp add: example_players l)
  from s [rule_format, of 0] s [rule_format, of 1] s [rule_format, of 25] c0 c1 c25
  have "slice b 36 40 = [1, 0, 0, 0] \<and> slice b 40 44 = [2, 0, 0, 0] \<and>
        slice b 136 140 = [2, 0, 0, 0]"
    by (simp add: decimalToBytes_def)
  with w show ?thesis by blast
qed

text \<open>
  The claim as stated has the sum after Z equal to the number of records. For the one
  record named \<open>1\<close> the value written at offset 136 is 0, and the number of records is 1.
\<close>

theorem alphabet_index_counterexample:
  "bindE (write_index (map snd (snd (sortAndCountPlayers example_platform digit_named)))
            0 36 (replicate 144 0))
     (\<lambda>b. Inr (slice b 136 140)) = Inr [0, 0, 0, 0] \<and>
   decimalToBytes (length digit_named) = [1, 0, 0, 0]"
proof -
  obtain b where w: "write_index (map snd (snd (sortAndCountPlayers example_platform digit_named)))
      0 36 (replicate 144 0) = Inr b"
    and s: "\<forall>i<26. slice b (36 + 4 * i) (40 + 4 * i) =
              decimalToBytes (cumulative_count example_platform digit_named i)"
    using index_values [of "replicate 144 0" example_platform digit_named] by auto
  have "cumulative_count example_platform digit_named 25 = 0"
    by (simp add: cumulative_total digit_named_def not_letter)
  with s [rule_format, of 25] have "slice b 136 140 = decimalToBytes 0" by simp
  with w show ?thesis by (simp add: decimalToBytes_def digit_named_def)
qed

text \<open>
  In the file that \<open>save\<close> returns the first 25 of these values stand; the one at offset
  136 is overwritten by the total count.
\<close>

lemma save_index_slots:
  assumes m1: "length (first (metadata this)) = 16"
    and m2: "length (second (metadata this)) = 16"
    and start: "144 \<le> COMMENTARY_START_OFFSET (pesConfig this)"
    and fit: "COMMENTARY_NAME_LENGTH (pesConfig this) + PLAYER_NAME_OFFSET (pesConfig this) +
              PLAYER_NAME_LENGTH (pesConfig this) \<le> RECORD_SIZE (pesConfig this)"
  shows "\<exists>buffer. save pf this = Inr buffer \<and>
           (\<forall>i<25. slice buffer (36 + 4 * i) (40 + 4 * i) =
                      decimalToBytes (cumulative_count pf (playerList this) i))"
proof -
  let ?cs = "map snd (snd (sortAndCountPlayers pf (playerList this)))"
  let ?rest = "replicate (COMMENTARY_START_OFFSET (pesConfig this) - 144) 0 @
               concat (map (record_bytes (pesConfig this))
                         (fst (sortAndCountPlayers pf (playerList this))))"
  have lc: "length ?cs = 26" by (simp add: length_counts)
  have s: "save pf this = Inr (header_bytes (metadata this) (length (playerList this)) ?cs @ ?rest)"
    using m1 m2 start fit by (rule save_explicit)
  have "slice (header_bytes (metadata this) (length (playerList this)) ?cs @ ?rest)
          (36 + 4 * i) (40 + 4 * i) = decimalToBytes (cumulative_count pf (playerList this) i)"
    if "i < 25" for i
    using header_index [OF m1 m2 lc that, of "length (playerList this)" ?rest] that
    by (simp add: counts_per_letter running_sums_cumulative)
  with s show ?thesis by blast
qed

subsection \<open>The round trip\<close>

text \<open>
  Where the layout has no padding between the key and the name, \<open>save\<close> and \<open>parse\<close> agree
  on where a name lies. Let the metadata be 16 bytes that start with \<open>SEPD\<close> and 16 bytes
  whose last 12 are zero; let the layout start its records at 144 or later and have a
  positive stride that holds both fields; let every key and every name be a string that
  its field holds without loss. Then \<open>parse\<close> of the output of \<open>save\<close> succeeds, with the same
  layout and metadata and with the records in the order \<open>save\<close> sorted them into, which are
  the same records with the same multiplicities.
\<close>

lemma round_trip_without_padding:
  assumes start: "144 \<le> COMMENTARY_START_OFFSET (pesConfig this)"
    and pno: "PLAYER_NAME_OFFSET (pesConfig this) = 0"
    and fit: "COMMENTARY_NAME_LENGTH (pesConfig this) + PLAYER_NAME_LENGTH (pesConfig this)
                \<le> RECORD_SIZE (pesConfig this)"
    and pos: "0 < RECORD_SIZE (pesConfig this)"
    and m1: "length (first (metadata this)) = 16"
    and magic: "take 4 (first (metadata this)) = [83, 69, 80, 68]"
    and m2: "length (second (metadata this)) = 16"
    and zero: "drop 4 (second (metadata this)) = replicate 12 0"
    and safe: "list_all (\<lambda>r. field_safe (COMMENTARY_NAME_LENGTH (pesConfig this)) (commentaryName r) \<and>
                             field_safe (PLAYER_NAME_LENGTH (pesConfig this)) (playerName r))
                 (playerList this)"
  shows "save_then_parse pf this =
           Some (Inr (this\<lparr>playerList :=
                   array_sort (\<lambda>a b. localeCompare pf (playerName a) (playerName b))
                     (playerList this)\<rparr>)) \<and>
         mset (array_sort (\<lambda>a b. localeCompare pf (playerName a) (playerName b))
                 (playerList this)) = mset (playerList this)"
proof -
  let ?cfg = "pesConfig this"
  let ?S = "COMMENTARY_START_OFFSET ?cfg"
  let ?cs = "map snd (snd (sortAndCountPlayers pf (playerList this)))"
  let ?sorted = "array_sort (\<lambda>a b. localeCompare pf (playerName a) (playerName b)) (playerList this)"
  let ?hdr = "header_bytes (metadata this) (length (playerList this)) ?cs"
  let ?gap = "replicate (?S - 144) (0::byte)"
  let ?recs = "concat (map (record_bytes ?cfg) ?sorted)"
  let ?buffer = "?hdr @ ?gap @ ?recs"
  have lc: "length ?cs = 26" by (simp add: length_counts)
  have fit': "COMMENTARY_NAME_LENGTH ?cfg + PLAYER_NAME_OFFSET ?cfg + PLAYER_NAME_LENGTH ?cfg
      \<le> RECORD_SIZE ?cfg" using fit pno by simp
  have s: "save pf this = Inr ?buffer"
    using save_explicit [OF m1 m2 start fit', of pf] by (simp add: sorted_eq)
  have lh: "length ?hdr = 144" using m1 m2 lc by (rule length_header_bytes)
  have lpre: "length (?hdr @ ?gap) = ?S" using lh start by simp
  have safe': "list_all (\<lambda>r. field_safe (COMMENTARY_NAME_LENGTH ?cfg) (commentaryName r) \<and>
                             field_safe (PLAYER_NAME_LENGTH ?cfg) (playerName r)) ?sorted"
    using safe by (simp add: list_all_iff array_sort_set)
  have "parse_loop ?cfg ((?hdr @ ?gap) @ ?recs) ?S [] = Some ([] @ ?sorted)"
    using pno fit pos safe' lpre by (rule parse_loop_records)
  then have loop: "parse_loop ?cfg ?buffer ?S [] = Some ?sorted" by simp
  have t4: "take 4 ?buffer = [83, 69, 80, 68]"
    using header_fields(7) [OF m1 m2 lc, of "length (playerList this)" "?gap @ ?recs"] magic
    by (simp only:)
  have z12: "slice ?buffer 24 36 = replicate 12 0"
    using header_fields(4) [OF m1 m2 lc, of "length (playerList this)" "?gap @ ?recs"] zero
    by (simp only:)
  have "list_all (\<lambda>byte. byte = 0) (replicate 12 (0::byte))" by (simp add: list_all_iff)
  then have valid: "isBinaryValid ?buffer"
    unfolding isBinaryValid_take t4 z12 by simp
  have big: "\<not> length ?buffer < ?S" using lpre by simp
  have meta: "\<lparr>first = slice ?buffer 0 16, second = slice ?buffer 20 36\<rparr> = metadata this"
    using header_fields(1,3) [OF m1 m2 lc, of "length (playerList this)" "?gap @ ?recs"] by simp
  have "parse ?buffer ?cfg =
      Some (Inr \<lparr>pesConfig = ?cfg, metadata = metadata this, playerList = ?sorted\<rparr>)"
    using big valid loop meta by (simp add: parse_def)
  moreover have "\<lparr>pesConfig = ?cfg, metadata = metadata this, playerList = ?sorted\<rparr> =
      this\<lparr>playerList := ?sorted\<rparr>" by simp
  ultimately have "save_then_parse pf this = Some (Inr (this\<lparr>playerList := ?sorted\<rparr>))"
    by (simp add: save_then_parse_def s)
  then show ?thesis by (simp add: array_sort_mset)
qed

lemma round_trip_2017_example:
  "save_then_parse example_platform example_parser_2017 =
     Some (Inr (example_parser_2017\<lparr>playerList :=
       [\<lparr>commentaryName = js ''E_A1_P0_R000001'', playerName = js ''Ana''\<rparr>,
        \<lparr>commentaryName = js ''E_A1_P0_R000002'', playerName = js ''Bob''\<rparr>]\<rparr>))"
proof -
  have pl: "playerList example_parser_2017 =
       [\<lparr>commentaryName = js ''E_A1_P0_R000002'', playerName = js ''Bob''\<rparr>,
        \<lparr>commentaryName = js ''E_A1_P0_R000001'', playerName = js ''Ana''\<rparr>]"
    by (simp add: example_parser_2017_def)
  have md: "metadata example_parser_2017 =
      \<lparr>first = ascii ''SEPD'' @ replicate 12 7, second = [1, 2, 3, 4] @ replicate 12 0\<rparr>"
    by (simp add: example_parser_2017_def)
  have cmp: "localeCompare example_platform (js ''Ana'') (js ''Bob'') = - 1"
    "localeCompare example_platform (js ''Bob'') (js ''Ana'') = 1"
    by (simp_all add: example_platform_def ascii_upper_def js_def)
  have sorted: "array_sort (\<lambda>a b. localeCompare example_platform (playerName a) (playerName b))
      (playerList example_parser_2017) =
       [\<lparr>commentaryName = js ''E_A1_P0_R000001'', playerName = js ''Ana''\<rparr>,
        \<lparr>commentaryName = js ''E_A1_P0_R000002'', playerName = js ''Bob''\<rparr>]"
    by (simp add: pl array_sort_def cmp)
  have h: "length (first (metadata example_parser_2017)) = 16"
    "take 4 (first (metadata example_parser_2017)) = [83, 69, 80, 68]"
    "length (second (metadata example_parser_2017)) = 16"
    "drop 4 (second (metadata example_parser_2017)) = replicate 12 0"
    by (simp_all add: md ascii_def)
  have s: "list_all (\<lambda>r. field_safe (COMMENTARY_NAME_LENGTH (pesConfig example_parser_2017))
                              (commentaryName r) \<and>
                            field_safe (PLAYER_NAME_LENGTH (pesConfig example_parser_2017))
                              (playerName r))
             (playerList example_parser_2017)"
    by (simp add: cfg_2017 pl safe_2017)
  from round_trip_without_padding [of example_parser_2017 example_platform, OF _ _ _ _ h s]
  show ?thesis by (simp add: cfg_2017 sorted)
qed

text \<open>
  \<open>save\<close> does not look at the metadata it writes, \<open>parse\<close> does: for metadata that does not
  start with the magic bytes \<open>save\<close> succeeds and \<open>parse\<close> rejects its output.
\<close>

lemma round_trip_rejects_missing_magic:
  "save_then_parse example_platform no_magic_parser = Some (Inl InvalidFile)"
proof -
  let ?cs = "map snd (snd (sortAndCountPlayers example_platform (playerList no_magic_parser)))"
  let ?hdr = "header_bytes (metadata no_magic_parser) (length (playerList no_magic_parser)) ?cs"
  have cfg: "pesConfig no_magic_parser = PES2017Config"
    and pl: "playerList no_magic_parser = []"
    and m: "length (first (metadata no_magic_parser)) = 16"
      "length (second (metadata no_magic_parser)) = 16"
    and t: "take 4 (first (metadata no_magic_parser)) = [0, 0, 0, 0]"
    by (simp_all add: no_magic_parser_def)
  have lc: "length ?cs = 26" by (simp add: length_counts)
  have "save example_platform no_magic_parser =
      Inr (?hdr @ replicate (COMMENTARY_START_OFFSET (pesConfig no_magic_parser) - 144) 0 @
           concat (map (record_bytes (pesConfig no_magic_parser))
                     (fst (sortAndCountPlayers example_platform (playerList no_magic_parser)))))"
    using m by (intro save_explicit) (simp_all add: cfg cfg_2017)
  then have s: "save example_platform no_magic_parser = Inr ?hdr"
    by (simp add: cfg cfg_2017 sorted_eq pl array_sort_def)
  have lh: "length ?hdr = 144" using m lc by (rule length_header_bytes)
  have "take 4 (?hdr @ []) = take 4 (first (metadata no_magic_parser))"
    using m lc by (rule header_fields(7))
  then have "take 4 ?hdr = [0, 0, 0, 0]" using t by simp
  then have "\<not> isBinaryValid ?hdr" by (simp add: isBinaryValid_take)
  then show ?thesis
    using lh by (simp add: save_then_parse_def s parse_def cfg cfg_2017)
qed

text \<open>
  C1. The claim is that \<open>parse\<close> of the output of \<open>save\<close>, with the same layout, restores the
  records and the metadata. On the PES 2021 layout it does not. \<open>PLAYER_NAME_OFFSET\<close> is 16
  there, the padding between the key and the name. \<open>parse\<close> reads the name at
  \<open>pointer + PLAYER_NAME_OFFSET + COMMENTARY_NAME_LENGTH\<close>; \<open>save\<close> writes it at
  \<open>pointer + COMMENTARY_NAME_LENGTH\<close>, into the padding. The instance below has the magic
  bytes, zero bytes in \<open>[24, 36)\<close>, and two records in sorted order, named \<open>Ana\<close> and \<open>Bob\<close>:
  \<open>save\<close> succeeds, \<open>parse\<close> of its output succeeds with the same layout, metadata and keys,
  and both names are the empty string. On the PES 2017 layout, which has no padding, the
  same two records come back with their names (the lemmas above).
\<close>

theorem round_trip_loses_names_with_padding:
  "save_then_parse example_platform example_parser =
     Some (Inr (example_parser\<lparr>playerList :=
       [\<lparr>commentaryName = js ''EN_A1_P0_R000001'', playerName = []\<rparr>,
        \<lparr>commentaryName = js ''EN_A1_P0_R000002'', playerName = []\<rparr>]\<rparr>)) \<and>
   save_then_parse example_platform example_parser \<noteq> Some (Inr example_parser) \<and>
   map playerName (playerList example_parser) = [js ''Ana'', js ''Bob'']"
proof -
  let ?cfg = "PES2021Config"
  let ?cs = "map snd (snd (sortAndCountPlayers example_platform (playerList example_parser)))"
  let ?hdr = "header_bytes (metadata example_parser) (length (playerList example_parser)) ?cs"
  let ?K1 = "ascii ''EN_A1_P0_R000001''"
  let ?K2 = "ascii ''EN_A1_P0_R000002''"
  let ?G1 = "ascii ''Ana'' @ replicate 13 0"
  let ?G2 = "ascii ''Bob'' @ replicate 13 0"
  let ?Z = "replicate 64 (0::byte)"
  let ?buffer = "?hdr @ ?K1 @ ?G1 @ ?Z @ (?K2 @ ?G2 @ ?Z @ [])"
  have cfg: "pesConfig example_parser = ?cfg" "COMMENTARY_START_OFFSET ?cfg = 144"
    "RECORD_SIZE ?cfg = 96" "COMMENTARY_NAME_LENGTH ?cfg = 16" "PLAYER_NAME_OFFSET ?cfg = 16"
    "PLAYER_NAME_LENGTH ?cfg = 64"
    by (simp_all add: example_parser_def PES2021Config_def)
  have m: "length (first (metadata example_parser)) = 16"
    "length (second (metadata example_parser)) = 16"
    and t4: "take 4 (first (metadata example_parser)) = [83, 69, 80, 68]"
    and z12: "drop 4 (second (metadata example_parser)) = replicate 12 0"
    by (simp_all add: example_parser_def)
  have lc: "length ?cs = 26" by (simp add: length_counts)
  have lh: "length ?hdr = 144" using m lc by (rule length_header_bytes)
  have cmp: "localeCompare example_platform (js ''Ana'') (js ''Bob'') = - 1"
    by (simp add: example_platform_def ascii_upper_def js_def)
  have sorted: "fst (sortAndCountPlayers example_platform (playerList example_parser)) =
      playerList example_parser"
    by (simp add: sorted_eq example_players array_sort_def cmp)
  have rb: "concat (map (record_bytes ?cfg) (playerList example_parser)) =
      ?K1 @ ?G1 @ ?Z @ (?K2 @ ?G2 @ ?Z @ [])"
    by (simp add: example_players record_bytes_def cfg enc_ascii Let_def)
       (simp add: ascii_def replicate_add [symmetric])
  have "save example_platform example_parser =
      Inr (?hdr @ replicate (COMMENTARY_START_OFFSET (pesConfig example_parser) - 144) 0 @
           concat (map (record_bytes (pesConfig example_parser))
             (fst (sortAndCountPlayers example_platform (playerList example_parser)))))"
    using m by (intro save_explicit) (simp_all add: cfg)
  then have s: "save example_platform example_parser = Inr ?buffer"
    by (simp add: cfg sorted rb)
  have len: "length ?buffer = 336" using lh by (simp add: ascii_def)
  have "read_record ?cfg (?hdr @ ?K1 @ ?G1 @ ?Z @ (?K2 @ ?G2 @ ?Z @ [])) 144 =
      \<lparr>commentaryName = cleanString ?K1, playerName = cleanString ?Z\<rparr>"
    using lh by (intro read_record_fields) (simp_all add: cfg ascii_def)
  then have r1: "read_record ?cfg ?buffer 144 =
      \<lparr>commentaryName = js ''EN_A1_P0_R000001'', playerName = []\<rparr>"
    by (simp only: clean_examples clean_zeros)
  have "read_record ?cfg ((?hdr @ ?K1 @ ?G1 @ ?Z) @ ?K2 @ ?G2 @ ?Z @ []) 240 =
      \<lparr>commentaryName = cleanString ?K2, playerName = cleanString ?Z\<rparr>"
    using lh by (intro read_record_fields) (simp_all add: cfg ascii_def)
  then have r2: "read_record ?cfg ?buffer 240 =
      \<lparr>commentaryName = js ''EN_A1_P0_R000002'', playerName = []\<rparr>"
    by (simp only: clean_examples clean_zeros append_assoc)
  define buf where "buf = ?buffer"
  have pos: "0 < RECORD_SIZE ?cfg" by (simp add: cfg)
  have d: "(length buf - 144) div RECORD_SIZE ?cfg = 2" using len by (simp add: buf_def cfg)
  have two: "[0..<2] = [0, Suc 0]" by (simp add: upt_rec)
  have r: "read_record ?cfg buf (144 + 0 * RECORD_SIZE ?cfg) =
        \<lparr>commentaryName = js ''EN_A1_P0_R000001'', playerName = []\<rparr>"
      "read_record ?cfg buf (144 + Suc 0 * RECORD_SIZE ?cfg) =
        \<lparr>commentaryName = js ''EN_A1_P0_R000002'', playerName = []\<rparr>"
    using r1 r2 by (simp_all add: buf_def cfg)
  have "parse_loop ?cfg buf 144 [] =
      Some ([] @ map (\<lambda>i. read_record ?cfg buf (144 + i * RECORD_SIZE ?cfg)) [0..<2])"
    using pos d by (rule parse_loop_returns)
  then have loop: "parse_loop ?cfg ?buffer 144 [] =
      Some [\<lparr>commentaryName = js ''EN_A1_P0_R000001'', playerName = []\<rparr>,
            \<lparr>commentaryName = js ''EN_A1_P0_R000002'', playerName = []\<rparr>]"
    unfolding two list.map r by (simp add: buf_def)
  have "take 4 (?hdr @ ?K1 @ ?G1 @ ?Z @ (?K2 @ ?G2 @ ?Z @ [])) = take 4 (first (metadata example_parser))"
    and "slice (?hdr @ ?K1 @ ?G1 @ ?Z @ (?K2 @ ?G2 @ ?Z @ [])) 24 36 = drop 4 (second (metadata example_parser))"
    and f: "slice (?hdr @ ?K1 @ ?G1 @ ?Z @ (?K2 @ ?G2 @ ?Z @ [])) 0 16 = first (metadata example_parser)"
    and g: "slice (?hdr @ ?K1 @ ?G1 @ ?Z @ (?K2 @ ?G2 @ ?Z @ [])) 20 36 = second (metadata example_parser)"
    using header_fields [OF m lc] by blast+
  then have valid: "isBinaryValid ?buffer"
    unfolding isBinaryValid_take t4 z12 by (simp add: list_all_iff)
  have "parse ?buffer ?cfg = Some (Inr (example_parser\<lparr>playerList :=
       [\<lparr>commentaryName = js ''EN_A1_P0_R000001'', playerName = []\<rparr>,
        \<lparr>commentaryName = js ''EN_A1_P0_R000002'', playerName = []\<rparr>]\<rparr>))"
    unfolding parse_def using valid len loop f g
    by (simp add: cfg example_parser_def)
  then have rt: "save_then_parse example_platform example_parser =
      Some (Inr (example_parser\<lparr>playerList :=
        [\<lparr>commentaryName = js ''EN_A1_P0_R000001'', playerName = []\<rparr>,
         \<lparr>commentaryName = js ''EN_A1_P0_R000002'', playerName = []\<rparr>]\<rparr>))"
    by (simp add: save_then_parse_def s cfg)
  have names: "map playerName (playerList example_parser) = [js ''Ana'', js ''Bob'']"
    by (simp add: example_players)
  have "playerList (example_parser\<lparr>playerList :=
        [\<lparr>commentaryName = js ''EN_A1_P0_R000001'', playerName = []\<rparr>,
         \<lparr>commentaryName = js ''EN_A1_P0_R000002'', playerName = []\<rparr>]\<rparr>) \<noteq>
      playerList example_parser"
    by (simp add: example_players js_def)
  then have "example_parser\<lparr>playerList :=
        [\<lparr>commentaryName = js ''EN_A1_P0_R000001'', playerName = []\<rparr>,
         \<lparr>commentaryName = js ''EN_A1_P0_R000002'', playerName = []\<rparr>]\<rparr> \<noteq> example_parser"
    by metis
  with rt names show ?thesis by simp
qed

text \<open>
  C9. \<open>save\<close> leaves the instance as it was: after the call, whether it returned or
  threw, the array of records that the instance refers to holds the same records in the
  same order, and its two metadata spans hold the same bytes. The sort works on a copy
  and every write goes to the new buffer. The buffer that the call on the store returns
  holds what \<open>save\<close> computes from the instance's values.
\<close>

theorem save_does_not_mutate:
  assumes "first_ref this < fresh h" and "second_ref this < fresh h" and "list_ref this < fresh h"
  shows "record_arrays (snd (save_h pf this h)) (list_ref this) = record_arrays h (list_ref this) \<and>
         byte_arrays (snd (save_h pf this h)) (first_ref this) = byte_arrays h (first_ref this) \<and>
         byte_arrays (snd (save_h pf this h)) (second_ref this) = byte_arrays h (second_ref this) \<and>
         fst (save_h pf this h) = map_sum id (\<lambda>b. fresh h) (save pf (parser_of this h)) \<and>
         (\<forall>b. save pf (parser_of this h) = Inr b \<longrightarrow>
              byte_arrays (snd (save_h pf this h)) (fresh h) = b)"
  using assms save_h_same [of h pf this] save_h_refines [OF assms, of pf]
  by (simp add: same_below_def)

theorem save_does_not_mutate_witness:
  "record_arrays (snd (save_h example_platform example_obj example_heap)) 0 =
     playerList example_parser \<and>
   byte_arrays (snd (save_h example_platform example_obj example_heap)) 1 =
     first (metadata example_parser) \<and>
   byte_arrays (snd (save_h example_platform example_obj example_heap)) 2 =
     second (metadata example_parser) \<and>
   fst (save_h example_platform example_obj example_heap) =
     map_sum id (\<lambda>b. 3) (save example_platform example_parser)"
proof -
  have p: "parser_of example_obj example_heap = example_parser"
    by (simp add: parser_of_def example_obj_def example_heap_def example_parser_def)
  have r: "first_ref example_obj < fresh example_heap"
    "second_ref example_obj < fresh example_heap" "list_ref example_obj < fresh example_heap"
    by (simp_all add: example_obj_def example_heap_def)
  from save_does_not_mutate [OF r, of example_platform]
  show ?thesis by (simp add: p) (simp add: example_obj_def example_heap_def)
qed

end
